theory Spec2Isabelle
  imports Main
begin

section \<open>Shared conventions\<close>

text \<open>
  Go strings and byte slices are byte lists (\<open>string\<close>); \<open>len\<close> is \<open>length\<close>.
  Go's \<open>int\<close> is modelled by \<open>int\<close> where only comparison and copying happen.
\<close>

section \<open>Stdin heuristic (executor.ShouldUseStdin, runSingleMode)\<close>

text \<open>
  \<^verbatim>\<open>const stdinSpecialChars = "\n\\\"'`$"\<close>: newline, backslash, double quote,
  single quote, backtick, dollar.
\<close>

definition stdinSpecialChars :: string where
  "stdinSpecialChars = [CHR 0x0A, CHR 0x5C, CHR 0x22, CHR 0x27, CHR 0x60, CHR 0x24]"

text \<open>
  \<open>strings.ContainsAny(s, chars)\<close>. Every character of \<open>stdinSpecialChars\<close> is ASCII,
  and no byte of a multi-byte UTF-8 sequence is ASCII, so membership of bytes is exact.
\<close>

definition ContainsAny :: "string \<Rightarrow> string \<Rightarrow> bool" where
  "ContainsAny s chars = list_ex (\<lambda>c. c \<in> set chars) s"

definition ShouldUseStdin :: "string \<Rightarrow> bool \<Rightarrow> bool" where
  "ShouldUseStdin taskText piped =
     (if piped then True
      else if length taskText > 800 then True
      else ContainsAny taskText stdinSpecialChars)"

text \<open>\<^verbatim>\<open>useStdin := cfg.ExplicitStdin || shouldUseStdin(taskText, piped)\<close>\<close>

definition useStdin :: "bool \<Rightarrow> string \<Rightarrow> bool \<Rightarrow> bool" where
  "useStdin explicitStdin taskText piped = (explicitStdin \<or> ShouldUseStdin taskText piped)"

section \<open>String helpers of the Go standard library\<close>

text \<open>
  \<open>strings.TrimSpace\<close> and \<open>bytes.TrimSpace\<close> remove the leading and the trailing white
  space of a UTF-8 string, white space being the code points of \<open>unicode.IsSpace\<close>:
  \<open>\t \n \v \f \r\<close>, space, U+0085, U+00A0, U+1680, U+2000 to U+200A, U+2028, U+2029,
  U+202F, U+205F and U+3000. \<open>whiteSpace\<close> lists their UTF-8 encodings. A byte that does
  not start a well-formed encoding decodes to U+FFFD, which is not white space, so the
  string begins (ends) with white space exactly when one of these byte sequences is a
  prefix (suffix) of it; no sequence is a prefix or a suffix of another.
\<close>

definition whiteSpace :: "string list" where
  "whiteSpace =
     [[CHR 0x09], [CHR 0x0A], [CHR 0x0B], [CHR 0x0C], [CHR 0x0D], [CHR 0x20],
      [CHR 0xC2, CHR 0x85], [CHR 0xC2, CHR 0xA0], [CHR 0xE1, CHR 0x9A, CHR 0x80],
      [CHR 0xE2, CHR 0x80, CHR 0x80], [CHR 0xE2, CHR 0x80, CHR 0x81],
      [CHR 0xE2, CHR 0x80, CHR 0x82], [CHR 0xE2, CHR 0x80, CHR 0x83],
      [CHR 0xE2, CHR 0x80, CHR 0x84], [CHR 0xE2, CHR 0x80, CHR 0x85],
      [CHR 0xE2, CHR 0x80, CHR 0x86], [CHR 0xE2, CHR 0x80, CHR 0x87],
      [CHR 0xE2, CHR 0x80, CHR 0x88], [CHR 0xE2, CHR 0x80, CHR 0x89],
      [CHR 0xE2, CHR 0x80, CHR 0x8A], [CHR 0xE2, CHR 0x80, CHR 0xA8],
      [CHR 0xE2, CHR 0x80, CHR 0xA9], [CHR 0xE2, CHR 0x80, CHR 0xAF],
      [CHR 0xE2, CHR 0x81, CHR 0x9F], [CHR 0xE3, CHR 0x80, CHR 0x80]]"

text \<open>
  \<open>spaceWidth ws s\<close> is the length of the sequence of \<open>ws\<close> that \<open>s\<close> begins with, or 0;
  \<open>TrimLeft ws\<close> removes such sequences for as long as there is one.
\<close>

definition spaceWidth :: "string list \<Rightarrow> string \<Rightarrow> nat" where
  "spaceWidth ws s =
     (case find (\<lambda>w. w \<noteq> [] \<and> take (length w) s = w) ws of
        None \<Rightarrow> 0
      | Some w \<Rightarrow> length w)"

lemma spaceWidth_le: "spaceWidth ws s \<le> length s"
proof (cases "find (\<lambda>w. w \<noteq> [] \<and> take (length w) s = w) ws")
  case None
  then show ?thesis by (simp add: spaceWidth_def)
next
  case (Some w)
  then have "take (length w) s = w" by (auto simp: find_Some_iff)
  from arg_cong [OF this, of length] have "length w \<le> length s"
    by (simp add: min_def split: if_splits)
  with Some show ?thesis by (simp add: spaceWidth_def)
qed

function TrimLeft :: "string list \<Rightarrow> string \<Rightarrow> string" where
  "TrimLeft ws s =
     (if spaceWidth ws s = 0 then s else TrimLeft ws (drop (spaceWidth ws s) s))"
  by pat_completeness auto
termination
proof (relation "measure (\<lambda>(ws, s). length s)")
  show "wf (measure (\<lambda>(ws, s). length s))" by simp
next
  fix ws :: "string list" and s :: string
  assume "spaceWidth ws s \<noteq> 0"
  with spaceWidth_le [of ws s]
  show "((ws, drop (spaceWidth ws s) s), (ws, s)) \<in> measure (\<lambda>(ws, s). length s)"
    by simp
qed

declare TrimLeft.simps [simp del]

definition TrimSpace :: "string \<Rightarrow> string" where
  "TrimSpace s = rev (TrimLeft (map rev whiteSpace) (rev (TrimLeft whiteSpace s)))"

text \<open>
  \<open>strings.ToLower\<close> on the letters \<open>A\<close> to \<open>Z\<close>. Go also folds the other letters of
  Unicode and replaces ill-formed bytes by U+FFFD. The result is only compared with the
  words of \<open>ParseBoolFlag\<close>: none of their letters comes from such a folding (only \<open>i\<close>
  and \<open>k\<close> do), so the comparisons come out the same.
\<close>

definition toLowerChar :: "char \<Rightarrow> char" where
  "toLowerChar c =
     (if (65::nat) \<le> of_char c \<and> of_char c \<le> (90::nat) then char_of (of_char c + (32::nat)) else c)"

definition ToLower :: "string \<Rightarrow> string" where
  "ToLower s = map toLowerChar s"

section \<open>Configuration (config.Config, config.ParseBoolFlag, config.EnvFlagDefaultTrue)\<close>

record Config =
  Mode :: string
  Task :: string
  SessionID :: string
  WorkDir :: string
  Model :: string
  ReasoningEffort :: string
  ExplicitStdin :: bool
  Timeout :: int
  Backend :: string
  Agent :: string
  PromptFile :: string
  PromptFileExplicit :: bool
  SkipPermissions :: bool
  Yolo :: bool
  MaxParallelWorkers :: int

definition ParseBoolFlag :: "string \<Rightarrow> bool \<Rightarrow> bool" where
  "ParseBoolFlag val defaultValue =
     (let v = TrimSpace (ToLower val) in
      if v = ''1'' \<or> v = ''true'' \<or> v = ''yes'' \<or> v = ''on'' then True
      else if v = ''0'' \<or> v = ''false'' \<or> v = ''no'' \<or> v = ''off'' then False
      else defaultValue)"

text \<open>The process environment is a map from names to values (\<open>os.LookupEnv\<close>).\<close>

type_synonym environ = "string \<rightharpoonup> string"

definition EnvFlagDefaultTrue :: "environ \<Rightarrow> string \<Rightarrow> bool" where
  "EnvFlagDefaultTrue env key =
     (case env key of None \<Rightarrow> True | Some val \<Rightarrow> ParseBoolFlag val True)"

section \<open>Codex argument vector (backend.BuildCodexArgs)\<close>

text \<open>
  \<open>logErrorFn\<close> and \<open>logWarnFn\<close> are the function's only effects; the model returns
  the messages it logs, in order, beside the argument vector. A nil \<open>cfg\<close> panics.
\<close>

datatype log_entry = LogError string | LogWarn string | LogInfo string

definition BuildCodexArgs ::
  "environ \<Rightarrow> Config option \<Rightarrow> string \<Rightarrow> string + (string list \<times> log_entry list)" where
  "BuildCodexArgs env cfgp targetArg =
     (case cfgp of
        None \<Rightarrow> Inl ''buildCodexArgs: nil config''
      | Some cfg \<Rightarrow>
          (let resumeSessionID = (if Mode cfg = ''resume'' then TrimSpace (SessionID cfg) else '''');
               badResume = (Mode cfg = ''resume'' \<and> resumeSessionID = '''');
               log1 = (if badResume
                       then [LogError ''invalid config: resume mode requires non-empty session_id'']
                       else []);
               isResume = (Mode cfg = ''resume'' \<and> \<not> badResume);
               bypass = (Yolo cfg \<or> EnvFlagDefaultTrue env ''CODEX_BYPASS_SANDBOX'');
               log2 = (if bypass
                       then [LogWarn ''YOLO mode or CODEX_BYPASS_SANDBOX enabled: running without approval/sandbox protection'']
                       else []);
               args1 = [''e''] @ (if bypass then [''--dangerously-bypass-approvals-and-sandbox''] else []);
               model = TrimSpace (Model cfg);
               args2 = args1 @ (if model \<noteq> '''' then [''--model'', model] else []);
               reasoningEffort = TrimSpace (ReasoningEffort cfg);
               args3 = args2 @ (if reasoningEffort \<noteq> ''''
                                then [''-c'', ''model_reasoning_effort='' @ reasoningEffort] else []);
               args4 = args3 @ [''--skip-git-repo-check'']
           in if isResume
              then Inr (args4 @ [''--json'', ''resume'', resumeSessionID, targetArg], log1 @ log2)
              else Inr (args4 @ [''-C'', WorkDir cfg, ''--json'', targetArg], log1 @ log2)))"

section \<open>Parallel mode exit code (runParallelMode)\<close>

text \<open>executor.TaskResult, without the advisory report fields.\<close>

record TaskResult =
  TaskID :: string
  ExitCode :: int
  Message :: string
  SessionID :: string
  Error :: string
  LogPath :: string

text \<open>
  \<^verbatim>\<open>exitCode := 0
  for _, res := range results { if res.ExitCode != 0 { exitCode = res.ExitCode } }\<close>
\<close>

fun exitCodeLoop :: "int \<Rightarrow> TaskResult list \<Rightarrow> int" where
  "exitCodeLoop exitCode [] = exitCode"
| "exitCodeLoop exitCode (res # results) =
     exitCodeLoop (if ExitCode res \<noteq> 0 then ExitCode res else exitCode) results"


section \<open>Stream normalizer (parser.ParseJSONStreamInternal)\<close>

subsection \<open>Line framing: readLineWithLimit\<close>

text \<open>
  \<open>bufio.Reader.ReadLine\<close> is library code. A reader is modelled by what its successive
  calls return: the parts with their \<open>isPrefix\<close> flags, then the error that ends the
  stream (\<open>io.EOF\<close> or a read failure with its message).
\<close>

datatype read_error = EOF | ReadFailure string

record reader =
  parts :: "(string \<times> bool) list"
  final :: read_error

definition jsonLineReaderSize :: int where "jsonLineReaderSize = 64 * 1024"
definition jsonLineMaxBytes :: int where "jsonLineMaxBytes = 10 * 1024 * 1024"
definition jsonLinePreviewBytes :: int where "jsonLinePreviewBytes = 256"

text \<open>Go's \<open>b[:n]\<close> for \<open>0 \<le> n \<le> len(b)\<close>, and the file's own \<open>min\<close> on \<open>int\<close>.\<close>

definition slice_to :: "string \<Rightarrow> int \<Rightarrow> string" where
  "slice_to b n = take (nat n) b"

definition len :: "string \<Rightarrow> int" where
  "len b = int (length b)"

text \<open>
  The loop \<^verbatim>\<open>for isPrefix { part, isPrefix, err = r.ReadLine() ... }\<close> of
  \<open>readLineWithLimit\<close>, entered with \<open>isPrefix\<close> true, over the results that remain.
  It returns \<open>(line, tooLong, err)\<close> and the results left unread.
\<close>

fun prefixLoop ::
  "int \<Rightarrow> int \<Rightarrow> read_error \<Rightarrow> string \<Rightarrow> string \<Rightarrow> int \<Rightarrow> bool \<Rightarrow> (string \<times> bool) list \<Rightarrow>
     (string \<times> bool \<times> read_error option) \<times> (string \<times> bool) list" where
  "prefixLoop maxBytes previewBytes fin preview buf totalBytes tooLong [] =
     (([], tooLong, Some fin), [])"
| "prefixLoop maxBytes previewBytes fin preview buf totalBytes tooLong ((part, isPrefix) # rest) =
     (let preview' =
            (if previewBytes > 0 \<and> len preview < previewBytes
             then preview @ slice_to part (min (previewBytes - len preview) (len part))
             else preview);
          over = (\<not> tooLong \<and> totalBytes + len part > maxBytes);
          tooLong' = (tooLong \<or> over);
          buf' = (if \<not> tooLong \<and> \<not> over then buf @ part else buf);
          totalBytes' = (if \<not> tooLong \<and> \<not> over then totalBytes + len part else totalBytes)
      in if isPrefix
         then prefixLoop maxBytes previewBytes fin preview' buf' totalBytes' tooLong' rest
         else if tooLong' then ((preview', True, None), rest)
         else ((buf', False, None), rest))"

definition readLineWithLimit ::
  "reader option \<Rightarrow> int \<Rightarrow> int \<Rightarrow> (string \<times> bool \<times> read_error option) \<times> reader option" where
  "readLineWithLimit rp maxBytes previewBytes0 =
     (case rp of
        None \<Rightarrow> (([], False, Some (ReadFailure ''reader is nil'')), rp)
      | Some r \<Rightarrow>
          if maxBytes \<le> 0 then (([], False, Some (ReadFailure ''maxBytes must be > 0'')), rp)
          else
            (let previewBytes = (if previewBytes0 < 0 then 0 else previewBytes0) in
             case parts r of
               [] \<Rightarrow> (([], False, Some (final r)), rp)
             | (part, isPrefix) # rest \<Rightarrow>
                 if \<not> isPrefix then
                   (if len part > maxBytes
                    then ((slice_to part (min (len part) previewBytes), True, None),
                          Some (r\<lparr>parts := rest\<rparr>))
                    else ((part, False, None), Some (r\<lparr>parts := rest\<rparr>)))
                 else
                   (let preview = (if previewBytes > 0
                                   then slice_to part (min previewBytes (len part)) else []);
                        tooLong = (len part > maxBytes);
                        buf = (if tooLong then [] else part);
                        totalBytes = (if tooLong then 0 else len part)
                    in case prefixLoop maxBytes previewBytes (final r) preview buf totalBytes tooLong rest of
                         (res, rest') \<Rightarrow> (res, Some (r\<lparr>parts := rest'\<rparr>)))))"

definition TruncateBytes :: "string \<Rightarrow> int \<Rightarrow> string" where
  "TruncateBytes b maxLen =
     (if len b \<le> maxLen then b
      else if maxLen < 0 then ''''
      else slice_to b maxLen @ ''...'')"

subsection \<open>Events\<close>

text \<open>
  A decoded JSON value of type \<open>interface{}\<close>, as far as \<open>NormalizeText\<close> tells values
  apart: a string, an array, anything else.
\<close>

datatype json_value = JString string | JArray "json_value list" | JOther

fun NormalizeText :: "json_value \<Rightarrow> string" where
  "NormalizeText (JString v) = v"
| "NormalizeText (JArray v) =
     concat (map (\<lambda>item. case item of JString s \<Rightarrow> s | _ \<Rightarrow> '''') v)"
| "NormalizeText JOther = ''''"

record UnifiedEvent =
  Type :: string
  ThreadID :: string
  Item :: string
  Subtype :: string
  SessionID :: string
  Result :: string
  Role :: string
  Content :: string
  Delta :: "bool option"
  Status :: string
  OpencodeSessionID :: string
  Part :: string

record OpencodePart =
  Type :: string
  Text :: string
  Reason :: string
  SessionID :: string

text \<open>
  \<open>json.Unmarshal\<close> is library code: the four decodings the parser asks for are
  parameters. \<open>unmarshalEvent\<close> decodes a line into a \<open>UnifiedEvent\<close>;
  \<open>unmarshalItemHeader\<close> decodes the raw \<open>item\<close> into its \<open>type\<close>;
  \<open>unmarshalItemContent\<close> decodes it into an \<open>ItemContent\<close>, of which only \<open>Text\<close> is
  read, or fails with a message; \<open>unmarshalPart\<close> decodes the raw \<open>part\<close> or fails with
  a message.
\<close>

record decoders =
  unmarshalEvent :: "string \<Rightarrow> UnifiedEvent option"
  unmarshalItemHeader :: "string \<Rightarrow> string option"
  unmarshalItemContent :: "string \<Rightarrow> string + json_value"
  unmarshalPart :: "string \<Rightarrow> string + OpencodePart"

datatype callback = OnMessage | OnComplete

text \<open>
  The variables of \<open>ParseJSONStreamInternal\<close>, with what it hands to \<open>warnFn\<close> and the
  calls of \<open>onMessage\<close> and \<open>onComplete\<close>, in order. (\<open>infoFn\<close> only reports.)
\<close>

record parse_state =
  threadID :: string
  codexMessage :: string
  claudeMessage :: string
  geminiBuffer :: string
  opencodeMessage :: string
  totalEvents :: nat
  warnings :: "string list"
  callbacks :: "callback list"

definition warnFn :: "string \<Rightarrow> parse_state \<Rightarrow> parse_state" where
  "warnFn msg st = st\<lparr>warnings := warnings st @ [msg]\<rparr>"

definition notifyMessage :: "parse_state \<Rightarrow> parse_state" where
  "notifyMessage st = st\<lparr>callbacks := callbacks st @ [OnMessage]\<rparr>"

definition notifyComplete :: "parse_state \<Rightarrow> parse_state" where
  "notifyComplete st = st\<lparr>callbacks := callbacks st @ [OnComplete]\<rparr>"

definition isCodex :: "decoders \<Rightarrow> UnifiedEvent \<Rightarrow> bool" where
  "isCodex dec event =
     (UnifiedEvent.ThreadID event \<noteq> '''' \<or>
      (Item event \<noteq> '''' \<and>
         (case unmarshalItemHeader dec (Item event) of None \<Rightarrow> False | Some t \<Rightarrow> t \<noteq> '''')) \<or>
      UnifiedEvent.Type event = ''turn.started'' \<or> UnifiedEvent.Type event = ''turn.completed'')"

definition isClaude :: "UnifiedEvent \<Rightarrow> bool" where
  "isClaude event =
     (Subtype event \<noteq> '''' \<or> Result event \<noteq> '''' \<or>
      (UnifiedEvent.Type event = ''result'' \<and> UnifiedEvent.SessionID event \<noteq> '''' \<and>
       Status event = ''''))"

definition isGemini :: "UnifiedEvent \<Rightarrow> bool" where
  "isGemini event =
     ((UnifiedEvent.Type event = ''init'' \<and> UnifiedEvent.SessionID event \<noteq> '''') \<or>
      Role event \<noteq> '''' \<or> Delta event \<noteq> None \<or> Status event \<noteq> '''')"

definition isOpencode :: "UnifiedEvent \<Rightarrow> bool" where
  "isOpencode event = (OpencodeSessionID event \<noteq> '''' \<and> Part event \<noteq> '''')"

definition handleOpencode :: "decoders \<Rightarrow> UnifiedEvent \<Rightarrow> parse_state \<Rightarrow> parse_state" where
  "handleOpencode dec event st0 =
     (let st1 = (if threadID st0 = '''' then st0\<lparr>threadID := OpencodeSessionID event\<rparr> else st0) in
      case unmarshalPart dec (Part event) of
        Inl err \<Rightarrow> warnFn (''Failed to parse opencode part: '' @ err) st1
      | Inr part \<Rightarrow>
          (let st2 = (if OpencodePart.SessionID part \<noteq> '''' \<and> threadID st1 = ''''
                      then st1\<lparr>threadID := OpencodePart.SessionID part\<rparr> else st1);
               st3 = (if UnifiedEvent.Type event = ''text'' \<and> Text part \<noteq> ''''
                      then notifyMessage (st2\<lparr>opencodeMessage := opencodeMessage st2 @ Text part\<rparr>)
                      else st2)
           in if OpencodePart.Type part = ''step-finish'' \<and> Reason part = ''stop''
              then notifyComplete st3 else st3))"

definition handleCodex :: "decoders \<Rightarrow> UnifiedEvent \<Rightarrow> parse_state \<Rightarrow> parse_state" where
  "handleCodex dec event st =
     (if UnifiedEvent.Type event = ''thread.started''
        then st\<lparr>threadID := UnifiedEvent.ThreadID event\<rparr>
      else if UnifiedEvent.Type event = ''thread.completed''
        then notifyComplete
               (if UnifiedEvent.ThreadID event \<noteq> '''' \<and> threadID st = ''''
                then st\<lparr>threadID := UnifiedEvent.ThreadID event\<rparr> else st)
      else if UnifiedEvent.Type event = ''turn.completed''
        then notifyComplete st
      else if UnifiedEvent.Type event = ''item.completed''
        then (let itemType =
                    (if Item event \<noteq> ''''
                     then (case unmarshalItemHeader dec (Item event) of None \<Rightarrow> '''' | Some t \<Rightarrow> t)
                     else '''')
              in if itemType = ''agent_message'' \<and> Item event \<noteq> ''''
                 then (case unmarshalItemContent dec (Item event) of
                         Inr text \<Rightarrow>
                           (let normalized = NormalizeText text in
                            if normalized \<noteq> ''''
                            then notifyMessage (st\<lparr>codexMessage := normalized\<rparr>) else st)
                       | Inl err \<Rightarrow> warnFn (''Failed to parse item content: '' @ err) st)
                 else st)
      else st)"

definition handleClaude :: "UnifiedEvent \<Rightarrow> parse_state \<Rightarrow> parse_state" where
  "handleClaude event st0 =
     (let st1 = (if UnifiedEvent.SessionID event \<noteq> '''' \<and> threadID st0 = ''''
                 then st0\<lparr>threadID := UnifiedEvent.SessionID event\<rparr> else st0);
          st2 = (if Result event \<noteq> ''''
                 then notifyMessage (st1\<lparr>claudeMessage := Result event\<rparr>) else st1)
      in if UnifiedEvent.Type event = ''result'' then notifyComplete st2 else st2)"

definition handleGemini :: "UnifiedEvent \<Rightarrow> parse_state \<Rightarrow> parse_state" where
  "handleGemini event st0 =
     (let st1 = (if UnifiedEvent.SessionID event \<noteq> '''' \<and> threadID st0 = ''''
                 then st0\<lparr>threadID := UnifiedEvent.SessionID event\<rparr> else st0);
          st2 = (if Content event \<noteq> ''''
                 then st1\<lparr>geminiBuffer := geminiBuffer st1 @ Content event\<rparr> else st1)
      in if Status event \<noteq> ''''
         then (let st3 = notifyMessage st2 in
               if UnifiedEvent.Type event = ''result'' \<and>
                  (Status event = ''success'' \<or> Status event = ''error'' \<or>
                   Status event = ''complete'' \<or> Status event = ''failed'')
               then notifyComplete st3 else st3)
         else st2)"

text \<open>Dispatch of one decoded event: opencode first, then codex, claude, gemini.\<close>

definition handleEvent :: "decoders \<Rightarrow> UnifiedEvent \<Rightarrow> parse_state \<Rightarrow> parse_state" where
  "handleEvent dec event st =
     (if isOpencode event then handleOpencode dec event st
      else if isCodex dec event then handleCodex dec event st
      else if isClaude event then handleClaude event st
      else if isGemini event then handleGemini event st
      else st)"

text \<open>The body of the loop once a line has been read without error.\<close>

definition handleLine :: "decoders \<Rightarrow> string \<Rightarrow> bool \<Rightarrow> parse_state \<Rightarrow> parse_state" where
  "handleLine dec line0 tooLong st0 =
     (let line = TrimSpace line0 in
      if line = '''' then st0
      else
        (let st = st0\<lparr>totalEvents := totalEvents st0 + 1\<rparr> in
         if tooLong
         then warnFn (''Skipped overlong JSON line (> 10485760 bytes): '' @ TruncateBytes line 100) st
         else (case unmarshalEvent dec line of
                 None \<Rightarrow> warnFn (''Failed to parse event: '' @ TruncateBytes line 100) st
               | Some event \<Rightarrow> handleEvent dec event st)))"

subsection \<open>The read loop and the result\<close>

text \<open>What a reader still holds: the termination measure of the read loop.\<close>

definition remaining :: "reader option \<Rightarrow> nat" where
  "remaining rp = (case rp of None \<Rightarrow> 0 | Some r \<Rightarrow> length (parts r))"

lemma prefixLoop_rest_le:
  "length (snd (prefixLoop maxBytes previewBytes fin preview buf totalBytes tooLong ps)) \<le> length ps"
proof (induction ps arbitrary: preview buf totalBytes tooLong)
  case Nil
  show ?case by simp
next
  case (Cons pb ps)
  obtain part isPrefix where pb: "pb = (part, isPrefix)" by (cases pb)
  show ?case
    unfolding pb prefixLoop.simps Let_def
    by (simp add: le_SucI Cons.IH)
qed

lemma prefixLoop_consumes:
  "prefixLoop maxBytes previewBytes fin preview buf totalBytes tooLong ps = (res, rest) \<Longrightarrow>
   length rest < Suc (length ps)"
  using prefixLoop_rest_le [of maxBytes previewBytes fin preview buf totalBytes tooLong ps]
  by simp

lemma readLineWithLimit_consumes:
  assumes "readLineWithLimit rp maxBytes previewBytes = ((line, tooLong, None), rp')"
  shows "remaining rp' < remaining rp"
proof (cases rp)
  case None
  with assms show ?thesis by (simp add: readLineWithLimit_def)
next
  case (Some r)
  show ?thesis
  proof (cases "parts r")
    case Nil
    with assms Some show ?thesis
      by (simp add: readLineWithLimit_def Let_def split: if_splits)
  next
    case (Cons pb rest)
    obtain part isPrefix where pb: "pb = (part, isPrefix)" by (cases pb)
    from assms Some Cons pb show ?thesis
      by (auto simp: readLineWithLimit_def remaining_def Let_def
               split: if_splits prod.splits dest: prefixLoop_consumes)
  qed
qed

text \<open>
  The \<^verbatim>\<open>for { line, tooLong, err := readLineWithLimit(...) ... }\<close> loop: it stops at
  the first error, silently at \<open>io.EOF\<close> and with a warning otherwise.
\<close>

function streamLoop :: "decoders \<Rightarrow> reader option \<Rightarrow> parse_state \<Rightarrow> parse_state" where
  "streamLoop dec rp st =
     (case readLineWithLimit rp jsonLineMaxBytes jsonLinePreviewBytes of
        ((line, tooLong, Some err), rp') \<Rightarrow>
          (case err of
             EOF \<Rightarrow> st
           | ReadFailure msg \<Rightarrow> warnFn (''Read stdout error: '' @ msg) st)
      | ((line, tooLong, None), rp') \<Rightarrow> streamLoop dec rp' (handleLine dec line tooLong st))"
  by pat_completeness auto
termination
  by (relation "measure (\<lambda>(dec, rp, st). remaining rp)")
     (auto dest: readLineWithLimit_consumes [OF sym])

declare streamLoop.simps [simp del]

definition initialState :: parse_state where
  "initialState =
     \<lparr>threadID = '''', codexMessage = '''', claudeMessage = '''', geminiBuffer = '''',
      opencodeMessage = '''', totalEvents = 0, warnings = [], callbacks = []\<rparr>"

text \<open>The \<^verbatim>\<open>switch\<close> that picks the message at the end of the stream.\<close>

definition selectMessage :: "parse_state \<Rightarrow> string" where
  "selectMessage st =
     (if length (opencodeMessage st) > 0 then opencodeMessage st
      else if length (geminiBuffer st) > 0 then geminiBuffer st
      else if claudeMessage st \<noteq> '''' then claudeMessage st
      else codexMessage st)"

text \<open>
  The result \<open>(message, threadID)\<close>, with the warnings handed to \<open>warnFn\<close> and the
  callbacks made, in order.
\<close>

definition ParseJSONStreamInternal ::
  "decoders \<Rightarrow> reader \<Rightarrow> (string \<times> string) \<times> string list \<times> callback list" where
  "ParseJSONStreamInternal dec r =
     (let st = streamLoop dec (Some r) initialState
      in ((selectMessage st, threadID st), warnings st, callbacks st))"

subsection \<open>The lines and events of a stream\<close>

text \<open>
  The lines that the read loop obtains from a reader before the error that ends it: each
  with its \<open>tooLong\<close> flag, as \<open>readLineWithLimit\<close> returns them.
\<close>

function streamLines :: "reader option \<Rightarrow> (string \<times> bool) list \<times> read_error" where
  "streamLines rp =
     (case readLineWithLimit rp jsonLineMaxBytes jsonLinePreviewBytes of
        ((line, tooLong, Some err), rp') \<Rightarrow> ([], err)
      | ((line, tooLong, None), rp') \<Rightarrow>
          (case streamLines rp' of (ls, err) \<Rightarrow> ((line, tooLong) # ls, err)))"
  by pat_completeness auto
termination
  by (relation "measure remaining")
     (auto dest: readLineWithLimit_consumes [OF sym])

declare streamLines.simps [simp del]

text \<open>
  Results of \<open>ReadLine\<close> that make up whole lines: none, or the last one is not flagged
  \<open>isPrefix\<close>.
\<close>

definition wholeLines :: "(string \<times> bool) list \<Rightarrow> bool" where
  "wholeLines ps = (ps = [] \<or> \<not> snd (last ps))"

text \<open>The event a line is decoded into, when it is neither blank, nor too long, nor malformed.\<close>

definition lineEvent :: "decoders \<Rightarrow> string \<times> bool \<Rightarrow> UnifiedEvent option" where
  "lineEvent dec lt =
     (case lt of (line, tooLong) \<Rightarrow>
        if TrimSpace line = '''' \<or> tooLong then None else unmarshalEvent dec (TrimSpace line))"

definition streamEvents :: "decoders \<Rightarrow> reader \<Rightarrow> UnifiedEvent list" where
  "streamEvents dec r = List.map_filter (lineEvent dec) (fst (streamLines (Some r)))"

text \<open>
  What one event adds to the result, by dialect: the text an opencode event appends, the
  content a gemini event appends, the result of a claude event, the agent message of a
  codex \<open>item.completed\<close> event.
\<close>

definition opencodeText :: "decoders \<Rightarrow> UnifiedEvent \<Rightarrow> string option" where
  "opencodeText dec event =
     (if isOpencode event then
        (case unmarshalPart dec (Part event) of
           Inl err \<Rightarrow> None
         | Inr part \<Rightarrow>
             if UnifiedEvent.Type event = ''text'' \<and> Text part \<noteq> '''' then Some (Text part) else None)
      else None)"

definition codexAgentMessage :: "decoders \<Rightarrow> UnifiedEvent \<Rightarrow> string option" where
  "codexAgentMessage dec event =
     (if \<not> isOpencode event \<and> isCodex dec event \<and> UnifiedEvent.Type event = ''item.completed'' \<and>
         Item event \<noteq> '''' \<and> unmarshalItemHeader dec (Item event) = Some ''agent_message''
      then (case unmarshalItemContent dec (Item event) of
              Inl err \<Rightarrow> None
            | Inr text \<Rightarrow> if NormalizeText text \<noteq> '''' then Some (NormalizeText text) else None)
      else None)"

definition claudeResult :: "decoders \<Rightarrow> UnifiedEvent \<Rightarrow> string option" where
  "claudeResult dec event =
     (if \<not> isOpencode event \<and> \<not> isCodex dec event \<and> isClaude event \<and> Result event \<noteq> ''''
      then Some (Result event) else None)"

definition geminiContent :: "decoders \<Rightarrow> UnifiedEvent \<Rightarrow> string option" where
  "geminiContent dec event =
     (if \<not> isOpencode event \<and> \<not> isCodex dec event \<and> \<not> isClaude event \<and> isGemini event \<and>
         Content event \<noteq> ''''
      then Some (Content event) else None)"

subsection \<open>The read loop as a fold\<close>

text \<open>
  One iteration of the read loop on a line, what the loop does with the error that ends
  it, and a state seen from later on: \<open>k\<close> more events counted and the warnings \<open>ws\<close>
  issued before its own.
\<close>

definition lineStep :: "decoders \<Rightarrow> parse_state \<Rightarrow> string \<times> bool \<Rightarrow> parse_state" where
  "lineStep dec st lt = handleLine dec (fst lt) (snd lt) st"

definition finishStream :: "read_error \<Rightarrow> parse_state \<Rightarrow> parse_state" where
  "finishStream err st =
     (case err of EOF \<Rightarrow> st | ReadFailure msg \<Rightarrow> warnFn (''Read stdout error: '' @ msg) st)"

definition earlier :: "nat \<Rightarrow> string list \<Rightarrow> parse_state \<Rightarrow> parse_state" where
  "earlier k ws st = st\<lparr>totalEvents := k + totalEvents st, warnings := ws @ warnings st\<rparr>"

subsection \<open>An example decoder\<close>

text \<open>
  A stand-in for \<open>json.Unmarshal\<close> on the lines of the codex and claude scenarios of the
  specification; every other input is malformed. It is used for concrete instances only.
\<close>

definition blankEvent :: UnifiedEvent where
  "blankEvent =
     \<lparr>UnifiedEvent.Type = '''', ThreadID = '''', Item = '''', Subtype = '''',
      UnifiedEvent.SessionID = '''', Result = '''', Role = '''', Content = '''', Delta = None,
      Status = '''', OpencodeSessionID = '''', Part = ''''\<rparr>"

definition exampleDecoders :: decoders where
  \<open>exampleDecoders =
     \<lparr>unmarshalEvent = (\<lambda>line.
        if line = ''{"type":"thread.started","thread_id":"T1"}''
          then Some (blankEvent\<lparr>UnifiedEvent.Type := ''thread.started'', ThreadID := ''T1''\<rparr>)
        else if line = ''{"type":"item.completed","item":{"type":"agent_message","text":"hello"}}''
          then Some (blankEvent\<lparr>UnifiedEvent.Type := ''item.completed'',
                       Item := ''{"type":"agent_message","text":"hello"}''\<rparr>)
        else if line = ''{"type":"thread.completed","thread_id":"T1"}''
          then Some (blankEvent\<lparr>UnifiedEvent.Type := ''thread.completed'', ThreadID := ''T1''\<rparr>)
        else if line = ''{"type":"result","subtype":"ok","session_id":"S","result":"done"}''
          then Some (blankEvent\<lparr>UnifiedEvent.Type := ''result'', Subtype := ''ok'',
                       UnifiedEvent.SessionID := ''S'', Result := ''done''\<rparr>)
        else None),
      unmarshalItemHeader = (\<lambda>item.
        if item = ''{"type":"agent_message","text":"hello"}'' then Some ''agent_message'' else None),
      unmarshalItemContent = (\<lambda>item.
        if item = ''{"type":"agent_message","text":"hello"}'' then Inr (JString ''hello'')
        else Inl ''unexpected end of JSON input''),
      unmarshalPart = (\<lambda>part. Inl ''unexpected end of JSON input'')\<rparr>\<close>

section \<open>Log file lifecycle of one run (runWithLoggerAndCleanup)\<close>

text \<open>
  The logger's own code is not part of the sources at hand; what the run needs of it is
  its path and its cache of recent WARN and ERROR lines, oldest first. The world of a run
  is the set of files that exist, what has been printed to stderr, and the active logger.
\<close>

record Logger =
  path :: string
  entries :: "string list"

record world =
  files :: "string set"
  stderr :: "string list"
  loggerPtr :: "Logger option"

text \<open>
  Modelled from the spec: \<open>Logger.ExtractRecentErrors\<close> is missing from the sources. The
  recent-error cache of section 4.6 and \<open>TestLoggerExtractRecentErrors\<close> give the last
  \<open>maxEntries\<close> cached lines, and none for \<open>maxEntries \<le> 0\<close>.
\<close>

definition ExtractRecentErrors :: "Logger \<Rightarrow> int \<Rightarrow> string list" where
  "ExtractRecentErrors l maxEntries =
     (if maxEntries \<le> 0 then []
      else drop (length (entries l) - nat maxEntries) (entries l))"

text \<open>
  Modelled from the spec: \<open>Logger.RemoveLogFile\<close> is missing from the sources. By
  \<open>TestLoggerPathAndRemove\<close> it unlinks the file at the logger's path; \<open>removed\<close> tells
  whether the unlink succeeds (the caller drops its error).
\<close>

definition RemoveLogFile :: "Logger \<Rightarrow> bool \<Rightarrow> world \<Rightarrow> world" where
  "RemoveLogFile l removed w = (if removed then w\<lparr>files := files w - {path l}\<rparr> else w)"

text \<open>
  \<open>closeLogger\<close> (logger/active.go): swap the active logger for nil and close it. Closing
  keeps the file (section 3 of the spec, \<open>TestLoggerCloseStopsWorkerAndKeepsFile\<close>);
  \<open>closeErr\<close> is the error \<open>Close\<close> returns, if any.
\<close>

definition closeLogger :: "string option \<Rightarrow> world \<Rightarrow> string option \<times> world" where
  "closeLogger closeErr w =
     (case loggerPtr w of
        None \<Rightarrow> (None, w)
      | Some l \<Rightarrow> (closeErr, w\<lparr>loggerPtr := None\<rparr>))"

definition eprint :: "string \<Rightarrow> world \<Rightarrow> world" where
  "eprint s w = w\<lparr>stderr := stderr w @ [s]\<rparr>"

text \<open>
  The deferred function of \<open>runWithLoggerAndCleanup\<close>, run with the exit code that
  \<open>fn\<close> returned.
\<close>

definition deferredCleanup :: "string option \<Rightarrow> bool \<Rightarrow> int \<Rightarrow> world \<Rightarrow> world" where
  "deferredCleanup closeErr removed exitCode w =
     (let logger = loggerPtr w;
          (err, w1) = closeLogger closeErr w;
          w2 = (case err of
                  None \<Rightarrow> w1
                | Some e \<Rightarrow> eprint (''ERROR: failed to close logger: '' @ e) w1)
      in case logger of
           None \<Rightarrow> w2
         | Some l \<Rightarrow>
             (let recent = ExtractRecentErrors l 10;
                  w3 = (if exitCode \<noteq> 0 \<and> length recent > 0
                        then eprint (''Log file: '' @ path l @ '' (deleted)'')
                               (foldl (\<lambda>w entry. eprint entry w)
                                  (eprint (CHR 0x0A # ''=== Recent Errors ==='') w2) recent)
                        else w2)
              in RemoveLogFile l removed w3))"

text \<open>
  \<open>runWithLoggerAndCleanup\<close>. \<open>created\<close> is what \<open>NewLogger\<close> returns (an error message or
  the logger, whose file then exists); \<open>scheduleStartupCleanup\<close>, \<open>fn\<close> and
  \<open>runCleanupHook\<close> act on the world in that order, before the deferred function.
\<close>

definition runWithLoggerAndCleanup ::
  "string + Logger \<Rightarrow> (world \<Rightarrow> world) \<Rightarrow> (world \<Rightarrow> int \<times> world) \<Rightarrow> (world \<Rightarrow> world) \<Rightarrow>
     string option \<Rightarrow> bool \<Rightarrow> world \<Rightarrow> int \<times> world" where
  "runWithLoggerAndCleanup created scheduleStartupCleanup fn runCleanupHook closeErr removed w0 =
     (case created of
        Inl err \<Rightarrow> (1, eprint (''ERROR: failed to initialize logger: '' @ err) w0)
      | Inr l \<Rightarrow>
          (let w1 = w0\<lparr>files := insert (path l) (files w0), loggerPtr := Some l\<rparr>;
               (exitCode, w2) = fn (scheduleStartupCleanup w1)
           in (exitCode, deferredCleanup closeErr removed exitCode (runCleanupHook w2))))"

text \<open>A run that logs one error and exits with code 1.\<close>

definition failingRun :: "world \<Rightarrow> int \<times> world" where
  "failingRun w =
     (1, w\<lparr>loggerPtr := map_option (\<lambda>l. l\<lparr>entries := entries l @ [''boom'']\<rparr>) (loggerPtr w)\<rparr>)"

section \<open>Task-block parser (executor.ParseParallelConfig)\<close>

subsection \<open>strings.Split and strings.SplitN\<close>

text \<open>
  The first occurrence of a non-empty separator: the text before it and the text after
  it.
\<close>

fun cutAt :: "string \<Rightarrow> string \<Rightarrow> (string \<times> string) option" where
  "cutAt sep [] = None"
| "cutAt sep (c # cs) =
     (if sep \<noteq> [] \<and> take (length sep) (c # cs) = sep
      then Some ([], drop (length sep) (c # cs))
      else (case cutAt sep cs of None \<Rightarrow> None | Some (a, b) \<Rightarrow> Some (c # a, b)))"

lemma cutAt_shorter: "cutAt sep s = Some (a, b) \<Longrightarrow> length b < length s"
proof (induction s arbitrary: a b)
  case Nil
  then show ?case by simp
next
  case (Cons c cs)
  show ?case
  proof (cases "sep \<noteq> [] \<and> take (length sep) (c # cs) = sep")
    case True
    with Cons.prems have "b = drop (length sep) (c # cs)" by simp
    moreover from True have "0 < length sep" by simp
    ultimately show ?thesis by simp
  next
    case False
    with Cons.prems obtain a' where "cutAt sep cs = Some (a', b)"
      by (auto split: option.splits)
    from Cons.IH [OF this] show ?thesis by simp
  qed
qed

text \<open>\<open>strings.Split(s, sep)\<close> for a non-empty separator: cut at every occurrence.\<close>

function Split :: "string \<Rightarrow> string \<Rightarrow> string list" where
  "Split s sep = (case cutAt sep s of None \<Rightarrow> [s] | Some (a, b) \<Rightarrow> a # Split b sep)"
  by pat_completeness auto
termination
  by (relation "measure (\<lambda>(s, sep). length s)") (auto simp: cutAt_shorter)

declare Split.simps [simp del]

text \<open>\<open>strings.SplitN(s, sep, 2)\<close>: cut at the first occurrence only.\<close>

definition SplitN2 :: "string \<Rightarrow> string \<Rightarrow> string list" where
  "SplitN2 s sep = (case cutAt sep s of None \<Rightarrow> [s] | Some (a, b) \<Rightarrow> [a, b])"

subsection \<open>Agent names (config.ValidateAgentName)\<close>

datatype agent_name_error = AgentNameEmpty | AgentNameInvalidChar char

definition agentNameChar :: "char \<Rightarrow> bool" where
  "agentNameChar r =
     (let n = (of_char r :: nat) in
      (97 \<le> n \<and> n \<le> 122) \<or> (65 \<le> n \<and> n \<le> 90) \<or> (48 \<le> n \<and> n \<le> 57) \<or>
      r = CHR ''-'' \<or> r = CHR ''_'')"

definition ValidateAgentName :: "string \<Rightarrow> agent_name_error option" where
  "ValidateAgentName name =
     (if TrimSpace name = '''' then Some AgentNameEmpty
      else (case find (\<lambda>r. \<not> agentNameChar r) name of
              None \<Rightarrow> None
            | Some r \<Rightarrow> Some (AgentNameInvalidChar r)))"

subsection \<open>Tasks\<close>

text \<open>executor.TaskSpec, without its \<open>context.Context\<close>.\<close>

record TaskSpec =
  ID :: string
  Task :: string
  WorkDir :: string
  Dependencies :: "string list"
  SessionID :: string
  Backend :: string
  Model :: string
  ReasoningEffort :: string
  Agent :: string
  PromptFile :: string
  SkipPermissions :: bool
  Mode :: string
  UseStdin :: bool

record ParallelConfig =
  Tasks :: "TaskSpec list"
  GlobalBackend :: string

text \<open>
  What \<open>config.ResolveAgentConfig\<close> returns for an agent name, as far as the parser
  reads it. It depends on the user's models file, so it is a parameter of the parser, as
  is the constant \<open>defaultWorkdir\<close>, which is declared outside the sources at hand.
\<close>

record agent_preset =
  presetBackend :: string
  presetModel :: string
  presetPromptFile :: string
  presetReasoning :: string

datatype parse_error =
    EmptyConfig
  | MissingContentSeparator nat
  | InvalidWorkdir nat
  | EmptyAgentField nat
  | InvalidAgentName nat agent_name_error
  | MissingID nat
  | MissingContent nat string
  | EmptySessionID nat string
  | DuplicateID nat string
  | NoTasks

text \<open>
  One line of the metadata head, on the task built so far and the \<open>agentSpecified\<close>
  flag. A key that the \<^verbatim>\<open>switch\<close> does not list leaves both unchanged.
\<close>

definition parseMetaLine ::
  "nat \<Rightarrow> string \<Rightarrow> TaskSpec \<times> bool \<Rightarrow> parse_error + TaskSpec \<times> bool" where
  "parseMetaLine taskIndex line0 st =
     (case st of (task, agentSpecified) \<Rightarrow>
        (let line = TrimSpace line0 in
         if line = '''' then Inr st
         else (case SplitN2 line '':'' of
                 [k, v] \<Rightarrow>
                   (let key = TrimSpace k; val = TrimSpace v in
                    if key = ''id'' then Inr (task\<lparr>ID := val\<rparr>, agentSpecified)
                    else if key = ''workdir'' then
                      (if val = ''-'' then Inl (InvalidWorkdir taskIndex)
                       else Inr (task\<lparr>WorkDir := val\<rparr>, agentSpecified))
                    else if key = ''session_id'' then
                      Inr (task\<lparr>SessionID := val, Mode := ''resume''\<rparr>, agentSpecified)
                    else if key = ''backend'' then Inr (task\<lparr>Backend := val\<rparr>, agentSpecified)
                    else if key = ''model'' then Inr (task\<lparr>Model := val\<rparr>, agentSpecified)
                    else if key = ''reasoning_effort'' then
                      Inr (task\<lparr>ReasoningEffort := val\<rparr>, agentSpecified)
                    else if key = ''agent'' then Inr (task\<lparr>Agent := val\<rparr>, True)
                    else if key = ''skip_permissions'' \<or> key = ''skip-permissions'' then
                      (if val = '''' then Inr (task\<lparr>SkipPermissions := True\<rparr>, agentSpecified)
                       else Inr (task\<lparr>SkipPermissions := ParseBoolFlag val False\<rparr>, agentSpecified))
                    else if key = ''dependencies'' then
                      Inr (task\<lparr>Dependencies :=
                                  Dependencies task @
                                  filter (\<lambda>dep. dep \<noteq> '''') (map TrimSpace (Split val '',''))\<rparr>,
                           agentSpecified)
                    else Inr st)
               | _ \<Rightarrow> Inr st)))"

fun parseMeta ::
  "nat \<Rightarrow> string list \<Rightarrow> TaskSpec \<times> bool \<Rightarrow> parse_error + TaskSpec \<times> bool" where
  "parseMeta taskIndex [] st = Inr st"
| "parseMeta taskIndex (line # lines) st =
     (case parseMetaLine taskIndex line st of
        Inl err \<Rightarrow> Inl err
      | Inr st' \<Rightarrow> parseMeta taskIndex lines st')"

definition emptyTask :: "string \<Rightarrow> TaskSpec" where
  "emptyTask defaultWorkdir =
     \<lparr>ID = '''', Task = '''', WorkDir = defaultWorkdir, Dependencies = [], SessionID = '''',
      Backend = '''', Model = '''', ReasoningEffort = '''', Agent = '''', PromptFile = '''',
      SkipPermissions = False, Mode = '''', UseStdin = False\<rparr>"

text \<open>
  One non-empty task block, numbered \<open>taskIndex\<close>, against the ids seen so far: the
  parsed task or the error that ends the parse.
\<close>

definition parseTaskBlock ::
  "string \<Rightarrow> (string \<Rightarrow> agent_preset) \<Rightarrow> nat \<Rightarrow> string set \<Rightarrow> string \<Rightarrow> parse_error + TaskSpec" where
  "parseTaskBlock defaultWorkdir ResolveAgentConfig taskIndex seen taskBlock =
     (case SplitN2 taskBlock ''---CONTENT---'' of
        [part0, part1] \<Rightarrow>
          (let meta = TrimSpace part0; content = TrimSpace part1 in
           case parseMeta taskIndex (Split meta [CHR 0x0A]) (emptyTask defaultWorkdir, False) of
             Inl err \<Rightarrow> Inl err
           | Inr (task0, agentSpecified) \<Rightarrow>
               (let task1 = (if Mode task0 = '''' then task0\<lparr>Mode := ''new''\<rparr> else task0) in
                if agentSpecified \<and> TrimSpace (Agent task1) = '''' then Inl (EmptyAgentField taskIndex)
                else case (if agentSpecified then ValidateAgentName (Agent task1) else None) of
                  Some err \<Rightarrow> Inl (InvalidAgentName taskIndex err)
                | None \<Rightarrow>
                  (let preset = ResolveAgentConfig (Agent task1);
                       task2 =
                         (if agentSpecified
                          then task1\<lparr>Backend := (if Backend task1 = '''' then presetBackend preset
                                                    else Backend task1),
                                     Model := (if Model task1 = '''' then presetModel preset
                                               else Model task1),
                                     ReasoningEffort := (if ReasoningEffort task1 = ''''
                                                         then presetReasoning preset
                                                         else ReasoningEffort task1),
                                     PromptFile := presetPromptFile preset\<rparr>
                          else task1)
                   in if ID task2 = '''' then Inl (MissingID taskIndex)
                      else if content = '''' then Inl (MissingContent taskIndex (ID task2))
                      else if Mode task2 = ''resume'' \<and> TrimSpace (SessionID task2) = ''''
                        then Inl (EmptySessionID taskIndex (ID task2))
                      else if ID task2 \<in> seen then Inl (DuplicateID taskIndex (ID task2))
                      else Inr (task2\<lparr>Task := content\<rparr>))))
      | _ \<Rightarrow> Inl (MissingContentSeparator taskIndex))"

text \<open>The loop over the blocks: blank blocks are skipped and not numbered.\<close>

fun parseBlocks ::
  "string \<Rightarrow> (string \<Rightarrow> agent_preset) \<Rightarrow> nat \<Rightarrow> string set \<Rightarrow> TaskSpec list \<Rightarrow> string list \<Rightarrow>
     parse_error + TaskSpec list" where
  "parseBlocks defaultWorkdir ResolveAgentConfig taskIndex seen acc [] = Inr acc"
| "parseBlocks defaultWorkdir ResolveAgentConfig taskIndex seen acc (block0 # blocks) =
     (let taskBlock = TrimSpace block0 in
      if taskBlock = '''' then parseBlocks defaultWorkdir ResolveAgentConfig taskIndex seen acc blocks
      else (case parseTaskBlock defaultWorkdir ResolveAgentConfig (taskIndex + 1) seen taskBlock of
              Inl err \<Rightarrow> Inl err
            | Inr task \<Rightarrow>
                parseBlocks defaultWorkdir ResolveAgentConfig (taskIndex + 1)
                  (insert (ID task) seen) (acc @ [task]) blocks))"

definition ParseParallelConfig ::
  "string \<Rightarrow> (string \<Rightarrow> agent_preset) \<Rightarrow> string \<Rightarrow> parse_error + ParallelConfig" where
  "ParseParallelConfig defaultWorkdir ResolveAgentConfig data =
     (let trimmed = TrimSpace data in
      if trimmed = '''' then Inl EmptyConfig
      else (case parseBlocks defaultWorkdir ResolveAgentConfig 0 {} []
                   (Split trimmed ''---TASK---'') of
              Inl err \<Rightarrow> Inl err
            | Inr tasks \<Rightarrow>
                if tasks = [] then Inl NoTasks
                else Inr \<lparr>Tasks = tasks, GlobalBackend = ''''\<rparr>))"

text \<open>An agent preset table with one entry, for concrete instances.\<close>

definition examplePresets :: "string \<Rightarrow> agent_preset" where
  "examplePresets name =
     (if name = ''develop''
      then \<lparr>presetBackend = ''codex'', presetModel = '''',
            presetPromptFile = ''~/.claude/skills/omo/references/develop.md'', presetReasoning = ''''\<rparr>
      else \<lparr>presetBackend = ''codex'', presetModel = '''', presetPromptFile = '''',
            presetReasoning = ''''\<rparr>)"

section \<open>Log cleanup (logger package)\<close>

subsection \<open>Process inspection (logger/process_check.go)\<close>

text \<open>
  Times are nanoseconds since the Unix epoch; Go's zero \<open>time.Time\<close> is the first instant
  of year 1. \<open>process.PidExists\<close>, \<open>process.NewProcess\<close> and \<open>Process.CreateTime\<close> are
  library calls: what they answer for a PID is a parameter.
\<close>

definition zeroTime :: int where
  "zeroTime = - 62135596800 * 1000000000"

definition UnixMilli :: "int \<Rightarrow> int" where
  "UnixMilli ms = ms * 1000000"

datatype proc_error = ErrorProcessNotRunning | ProcError string

record procs =
  PidExists :: "int \<Rightarrow> bool \<times> proc_error option"
  NewProcess :: "int \<Rightarrow> proc_error option"
  CreateTime :: "int \<Rightarrow> int \<times> proc_error option"

definition pidToInt32 :: "int \<Rightarrow> int option" where
  "pidToInt32 pid = (if pid \<le> 0 \<or> pid > 2147483647 then None else Some pid)"

definition isProcessRunning :: "procs \<Rightarrow> int \<Rightarrow> bool" where
  "isProcessRunning os pid =
     (case pidToInt32 pid of
        None \<Rightarrow> False
      | Some pid32 \<Rightarrow>
          (case PidExists os pid32 of
             (exists, None) \<Rightarrow> exists
           | (exists, Some ErrorProcessNotRunning) \<Rightarrow> False
           | (exists, Some (ProcError msg)) \<Rightarrow> True))"

definition getProcessStartTime :: "procs \<Rightarrow> int \<Rightarrow> int" where
  "getProcessStartTime os pid =
     (case pidToInt32 pid of
        None \<Rightarrow> zeroTime
      | Some pid32 \<Rightarrow>
          (case NewProcess os pid32 of
             Some err \<Rightarrow> zeroTime
           | None \<Rightarrow>
               (case CreateTime os pid32 of
                  (ms, err) \<Rightarrow> if err \<noteq> None \<or> ms \<le> 0 then zeroTime else UnixMilli ms)))"

subsection \<open>The cleanup decisions\<close>

text \<open>
  What \<open>fileStatFn\<close> (\<open>os.Lstat\<close>) tells about a file, as far as cleanup reads it, and the
  file system calls of cleanup: \<open>Lstat\<close>, and \<open>EvalSymlinks\<close> giving the resolved
  absolute path as its list of components.
\<close>

record FileInfo =
  ModTime :: int
  IsSymlink :: bool

record fsys =
  Lstat :: "string \<Rightarrow> string + FileInfo"
  EvalSymlinks :: "string \<Rightarrow> string + string list"

text \<open>
  Modelled from the spec: \<open>isPIDReused\<close> is missing from the sources. Section 4.6, step 2
  and the rows of \<open>TestLoggerIsPIDReusedScenarios\<close> fix it: a stat error means no reuse; with
  a known start time the PID is reused when the file's mtime is older than the start time;
  with an unknown start time only an old file counts as reused (eight days do, two hours do
  not). The age from which a file is old is not in the sources: it is the parameter
  \<open>staleAfter\<close>.
\<close>

definition isPIDReused :: "int \<Rightarrow> int \<Rightarrow> fsys \<Rightarrow> procs \<Rightarrow> string \<Rightarrow> int \<Rightarrow> bool" where
  "isPIDReused staleAfter now fs os logPath pid =
     (case Lstat fs logPath of
        Inl err \<Rightarrow> False
      | Inr info \<Rightarrow>
          (let procStartTime = getProcessStartTime os pid in
           if procStartTime = zeroTime then now - ModTime info > staleAfter
           else ModTime info < procStartTime))"

text \<open>
  Modelled from the spec: the liveness decision of \<open>cleanupOldLogs\<close> is missing from the
  sources. Section 4.6, step 2: a file is reclaimable when its PID is not reported as
  running, or is running but reused.
\<close>

definition logIsReclaimable :: "int \<Rightarrow> int \<Rightarrow> fsys \<Rightarrow> procs \<Rightarrow> string \<Rightarrow> int \<Rightarrow> bool" where
  "logIsReclaimable staleAfter now fs os logPath pid =
     (if \<not> isProcessRunning os pid then True
      else isPIDReused staleAfter now fs os logPath pid)"

text \<open>
  Modelled from the spec: \<open>isUnsafeFile\<close> is missing from the sources. Section 4.6, step 3,
  property (d) of section 8 and \<open>TestLoggerIsUnsafeFileSecurityChecks\<close>: a stat error counts
  as unsafe, a symlink is refused (\<^verbatim>\<open>refusing to delete symlink\<close>), and so is a file whose
  resolved path is not under the temp directory (\<^verbatim>\<open>file is outside tempDir\<close>). A resolved
  path lies under the directory when the directory's components are a prefix of its own.
\<close>

datatype unsafe_reason = StatFailed string | RefusingSymlink | ResolveFailed string | OutsideTempDir

definition pathWithin :: "string list \<Rightarrow> string list \<Rightarrow> bool" where
  "pathWithin dir p = (take (length dir) p = dir)"

definition isUnsafeFile :: "fsys \<Rightarrow> string \<Rightarrow> string list \<Rightarrow> unsafe_reason option" where
  "isUnsafeFile fs logPath tempDir =
     (case Lstat fs logPath of
        Inl err \<Rightarrow> Some (StatFailed err)
      | Inr info \<Rightarrow>
          if IsSymlink info then Some RefusingSymlink
          else (case EvalSymlinks fs logPath of
                  Inl err \<Rightarrow> Some (ResolveFailed err)
                | Inr resolved \<Rightarrow>
                    if pathWithin tempDir resolved then None else Some OutsideTempDir))"

text \<open>
  Modelled from the spec: \<open>cleanupOldLogs\<close> is missing from the sources. Section 4.6: scan
  the candidates; keep a file whose name yields no valid PID; decide liveness; before an
  unlink refuse unsafe files; count unlink errors and go on. \<open>parsePID\<close> stands for
  \<open>parsePIDFromLog\<close> and \<open>remove\<close> for \<open>removeLogFileFn\<close> (its error, if any). Beside the
  summary the model records the paths handed to \<open>remove\<close>.
\<close>

record CleanupStats =
  Scanned :: nat
  Deleted :: nat
  Kept :: nat
  Errors :: nat
  DeletedFiles :: "string list"
  KeptFiles :: "string list"
  Unlinked :: "string list"

record cleanup_env =
  staleAfter :: int
  now :: int
  filesystem :: fsys
  processes :: procs
  tempDir :: "string list"
  parsePID :: "string \<Rightarrow> int option"
  remove :: "string \<Rightarrow> string option"

definition keepFile :: "string \<Rightarrow> CleanupStats \<Rightarrow> CleanupStats" where
  "keepFile logPath stats =
     stats\<lparr>Kept := Kept stats + 1, KeptFiles := KeptFiles stats @ [logPath]\<rparr>"

definition cleanupCandidate :: "cleanup_env \<Rightarrow> CleanupStats \<Rightarrow> string \<Rightarrow> CleanupStats" where
  "cleanupCandidate env stats0 logPath =
     (let stats = stats0\<lparr>Scanned := Scanned stats0 + 1\<rparr> in
      case parsePID env logPath of
        None \<Rightarrow> keepFile logPath stats
      | Some pid \<Rightarrow>
          if \<not> logIsReclaimable (staleAfter env) (now env) (filesystem env) (processes env) logPath pid
          then keepFile logPath stats
          else if isUnsafeFile (filesystem env) logPath (tempDir env) \<noteq> None
          then keepFile logPath stats
          else (case remove env logPath of
                  None \<Rightarrow> stats\<lparr>Deleted := Deleted stats + 1,
                                 DeletedFiles := DeletedFiles stats @ [logPath],
                                 Unlinked := Unlinked stats @ [logPath]\<rparr>
                | Some err \<Rightarrow> stats\<lparr>Errors := Errors stats + 1,
                                    Unlinked := Unlinked stats @ [logPath]\<rparr>))"

definition emptyStats :: CleanupStats where
  "emptyStats = \<lparr>Scanned = 0, Deleted = 0, Kept = 0, Errors = 0, DeletedFiles = [],
                  KeptFiles = [], Unlinked = []\<rparr>"

definition cleanupOldLogs :: "cleanup_env \<Rightarrow> string + string list \<Rightarrow> CleanupStats" where
  "cleanupOldLogs env globbed =
     (case globbed of
        Inl err \<Rightarrow> emptyStats
      | Inr matches \<Rightarrow> foldl (cleanupCandidate env) emptyStats matches)"

text \<open>
  A cleanup scene for concrete instances: under \<^verbatim>\<open>/tmp\<close>, log 1 is a symlink, log 9
  resolves to \<^verbatim>\<open>/etc/passwd\<close>, log 7 is a plain file; no process is running and every
  unlink succeeds.
\<close>

definition exampleFiles :: fsys where
  "exampleFiles =
     \<lparr>Lstat = (\<lambda>p. if p = ''/tmp/codeagent-wrapper-1.log''
                     then Inr \<lparr>ModTime = 0, IsSymlink = True\<rparr>
                     else Inr \<lparr>ModTime = 0, IsSymlink = False\<rparr>),
      EvalSymlinks = (\<lambda>p. if p = ''/tmp/codeagent-wrapper-9.log'' then Inr [''etc'', ''passwd'']
                            else if p = ''/tmp/codeagent-wrapper-7.log''
                            then Inr [''tmp'', ''codeagent-wrapper-7.log'']
                            else Inr [''tmp'', ''codeagent-wrapper-1.log''])\<rparr>"

definition noProcesses :: procs where
  "noProcesses =
     \<lparr>PidExists = (\<lambda>pid. (False, None)),
      NewProcess = (\<lambda>pid. Some ErrorProcessNotRunning),
      CreateTime = (\<lambda>pid. (0, Some ErrorProcessNotRunning))\<rparr>"

definition exampleCleanup :: cleanup_env where
  "exampleCleanup =
     \<lparr>staleAfter = 604800000000000, now = 1700000000000000000, filesystem = exampleFiles,
      processes = noProcesses, tempDir = [''tmp''],
      parsePID = (\<lambda>p. if p = ''/tmp/codeagent-wrapper-1.log'' then Some 1
                        else if p = ''/tmp/codeagent-wrapper-9.log'' then Some 9
                        else if p = ''/tmp/codeagent-wrapper-7.log'' then Some 7 else None),
      remove = (\<lambda>p. None)\<rparr>"

text \<open>
  Processes as seen when inspection is denied: the existence check fails with a
  permission error and the start time cannot be read. And a log file last written eight
  days before the example's \<open>now\<close>.
\<close>

definition deniedProcesses :: procs where
  "deniedProcesses =
     \<lparr>PidExists = (\<lambda>pid. (False, Some (ProcError ''permission denied''))),
      NewProcess = (\<lambda>pid. Some (ProcError ''permission denied'')),
      CreateTime = (\<lambda>pid. (0, Some (ProcError ''permission denied'')))\<rparr>"

definition oldLogFiles :: fsys where
  "oldLogFiles =
     \<lparr>Lstat = (\<lambda>p. Inr \<lparr>ModTime = 1700000000000000000 - 691200000000000, IsSymlink = False\<rparr>),
      EvalSymlinks = (\<lambda>p. Inr [''tmp'', ''log''])\<rparr>"

text \<open>
  A process that started half an hour before the example's \<open>now\<close>, log files last written
  two hours before it, and files that cannot be inspected.
\<close>

definition youngProcess :: procs where
  "youngProcess =
     \<lparr>PidExists = (\<lambda>pid. (True, None)),
      NewProcess = (\<lambda>pid. None),
      CreateTime = (\<lambda>pid. (1700000000000 - 1800000, None))\<rparr>"

definition recentLogFiles :: fsys where
  "recentLogFiles =
     \<lparr>Lstat = (\<lambda>p. Inr \<lparr>ModTime = 1700000000000000000 - 7200000000000, IsSymlink = False\<rparr>),
      EvalSymlinks = (\<lambda>p. Inr [''tmp'', ''log''])\<rparr>"

definition unreadableFiles :: fsys where
  "unreadableFiles =
     \<lparr>Lstat = (\<lambda>p. Inl ''stat failed''),
      EvalSymlinks = (\<lambda>p. Inl ''stat failed'')\<rparr>"

text \<open>
  The liveness decision and its outcome, as cleanup takes them for a candidate: the
  decision with the scan's own parameters, and a file that the scan keeps, that is, lists
  among the kept files and never hands to the unlink function.
\<close>

definition reclaimable :: "cleanup_env \<Rightarrow> string \<Rightarrow> int \<Rightarrow> bool" where
  "reclaimable env logPath pid =
     logIsReclaimable (staleAfter env) (now env) (filesystem env) (processes env) logPath pid"

definition keptByCleanup :: "cleanup_env \<Rightarrow> string list \<Rightarrow> string \<Rightarrow> bool" where
  "keptByCleanup env matches logPath =
     (logPath \<in> set (KeptFiles (cleanupOldLogs env (Inr matches))) \<and>
      logPath \<notin> set (Unlinked (cleanupOldLogs env (Inr matches))))"

text \<open>
  Processes as seen when the existence check itself fails with
  \<open>process.ErrorProcessNotRunning\<close>, and the cleanup of a temp directory \<^verbatim>\<open>/tmp\<close> with
  given processes and files, seven days as the age of an old file, and the one candidate
  name that carries the PID 1234.
\<close>

definition vanishedProcesses :: procs where
  "vanishedProcesses =
     \<lparr>PidExists = (\<lambda>pid. (False, Some ErrorProcessNotRunning)),
      NewProcess = (\<lambda>pid. Some ErrorProcessNotRunning),
      CreateTime = (\<lambda>pid. (0, Some ErrorProcessNotRunning))\<rparr>"

definition cleanupScene :: "procs \<Rightarrow> fsys \<Rightarrow> cleanup_env" where
  "cleanupScene os fs =
     \<lparr>staleAfter = 604800000000000, now = 1700000000000000000, filesystem = fs,
      processes = os, tempDir = [''tmp''],
      parsePID = (\<lambda>p. if p = ''/tmp/codeagent-wrapper-1234.log'' then Some 1234 else None),
      remove = (\<lambda>p. None)\<rparr>"

section \<open>DAG scheduler: planning (executor.TopologicalSort)\<close>

text \<open>
  Modelled from the spec: \<open>executor.TopologicalSort\<close> is missing from the sources
  (\<^verbatim>\<open>app/executor_alias.go\<close> only forwards to it). Section 4.5, steps 1 and 2: an edge whose
  source is not a known ID is rejected; layer 0 holds the tasks with no dependency, layer
  \<open>k + 1\<close> the tasks all of whose dependencies lie in layers \<open>0..k\<close>; when a non-empty
  remaining set cannot advance, planning fails with a cycle error that names the remaining
  IDs; within a layer the tasks keep their insertion order.
\<close>

datatype plan_error = UnknownDependency string string | CycleDetected "string list"

definition depsIn :: "string list \<Rightarrow> TaskSpec \<Rightarrow> bool" where
  "depsIn placed t = list_all (\<lambda>d. d \<in> set placed) (Dependencies t)"

lemma filter_not_shorter:
  "filter P xs \<noteq> [] \<Longrightarrow> length (filter (\<lambda>x. \<not> P x) xs) < length xs"
  using sum_length_filter_compl [of P xs] by (cases "filter P xs") simp_all

function layering :: "string list \<Rightarrow> TaskSpec list \<Rightarrow> plan_error + TaskSpec list list" where
  "layering placed pending =
     (if pending = [] then Inr []
      else if filter (depsIn placed) pending = [] then Inl (CycleDetected (map ID pending))
      else (case layering (placed @ map ID (filter (depsIn placed) pending))
                   (filter (\<lambda>t. \<not> depsIn placed t) pending) of
              Inl err \<Rightarrow> Inl err
            | Inr layers \<Rightarrow> Inr (filter (depsIn placed) pending # layers)))"
  by pat_completeness auto
termination
  by (relation "measure (\<lambda>(placed, pending). length pending)")
     (simp_all add: filter_not_shorter)

declare layering.simps [simp del]

text \<open>The first declared dependency, with its task, that names no task of the batch.\<close>

definition firstUnknown :: "TaskSpec list \<Rightarrow> (string \<times> string) option" where
  "firstUnknown tasks =
     find (\<lambda>(d, t). d \<notin> set (map ID tasks))
       (concat (map (\<lambda>t. map (\<lambda>d. (d, ID t)) (Dependencies t)) tasks))"

definition TopologicalSort :: "TaskSpec list \<Rightarrow> plan_error + TaskSpec list list" where
  "TopologicalSort tasks =
     (case firstUnknown tasks of
        Some (d, t) \<Rightarrow> Inl (UnknownDependency d t)
      | None \<Rightarrow> layering [] tasks)"

text \<open>
  The dependency edges \<open>(u, v)\<close> of a batch (\<open>v\<close> declares \<open>u\<close>), and the index of the
  layer that holds the task with a given ID.
\<close>

definition edges :: "TaskSpec list \<Rightarrow> (string \<times> string) set" where
  "edges tasks = {(u, ID t) | u t. t \<in> set tasks \<and> u \<in> set (Dependencies t)}"

fun layerOf :: "TaskSpec list list \<Rightarrow> string \<Rightarrow> nat option" where
  "layerOf [] x = None"
| "layerOf (layer # layers) x =
     (if x \<in> set (map ID layer) then Some 0 else map_option Suc (layerOf layers x))"

text \<open>The batches of the spec's scenarios: fan-out and fan-in, and a cycle.\<close>

definition plainTask :: "string \<Rightarrow> string list \<Rightarrow> TaskSpec" where
  "plainTask name deps =
     \<lparr>ID = name, Task = ''work'', WorkDir = ''.'', Dependencies = deps, SessionID = '''',
      Backend = '''', Model = '''', ReasoningEffort = '''', Agent = '''', PromptFile = '''',
      SkipPermissions = False, Mode = ''new'', UseStdin = False\<rparr>"

definition fanOutFanIn :: "TaskSpec list" where
  "fanOutFanIn =
     [plainTask ''a'' [], plainTask ''b'' [''a''], plainTask ''c'' [''a''],
      plainTask ''d'' [''b'', ''c'']]"

definition twoCycle :: "TaskSpec list" where
  "twoCycle = [plainTask ''a'' [''b''], plainTask ''b'' [''a'']]"

text \<open>
  A batch with a cycle between \<open>a\<close> and \<open>b\<close> and a task \<open>c\<close> that depends on an ID
  no task has, and the document it is parsed from.
\<close>

definition mixedBatch :: "TaskSpec list" where
  "mixedBatch = [plainTask ''a'' [''b''], plainTask ''b'' [''a''], plainTask ''c'' [''zzz'']]"

definition mixedDocument :: string where
  "mixedDocument =
     ''---TASK---'' @ [CHR 0x0A] @ ''id: a'' @ [CHR 0x0A] @ ''dependencies: b'' @ [CHR 0x0A] @
     ''---CONTENT---'' @ [CHR 0x0A] @ ''work'' @ [CHR 0x0A] @
     ''---TASK---'' @ [CHR 0x0A] @ ''id: b'' @ [CHR 0x0A] @ ''dependencies: a'' @ [CHR 0x0A] @
     ''---CONTENT---'' @ [CHR 0x0A] @ ''work'' @ [CHR 0x0A] @
     ''---TASK---'' @ [CHR 0x0A] @ ''id: c'' @ [CHR 0x0A] @ ''dependencies: zzz'' @ [CHR 0x0A] @
     ''---CONTENT---'' @ [CHR 0x0A] @ ''work'' @ [CHR 0x0A]"

section \<open>DAG scheduler: execution order and the exit code of a batch\<close>



text \<open>
  Two batches of the same three tasks, \<open>b\<close> depending on \<open>a\<close>, in different insertion
  orders; and a task runner under which \<open>a\<close> succeeds, \<open>b\<close> exits with code 3 and \<open>c\<close>
  with code 2.
\<close>

definition dependentFirst :: "TaskSpec list" where
  "dependentFirst = [plainTask ''b'' [''a''], plainTask ''c'' [], plainTask ''a'' []]"

definition dependentLast :: "TaskSpec list" where
  "dependentLast = [plainTask ''c'' [], plainTask ''a'' [], plainTask ''b'' [''a'']]"


section \<open>Properties\<close>

subsection \<open>String helpers\<close>

lemma TrimLeft_Nil [simp]: "TrimLeft ws [] = []"
  using spaceWidth_le [of ws "[]"] by (subst TrimLeft.simps) simp

lemma TrimLeft_keep: "spaceWidth ws s = 0 \<Longrightarrow> TrimLeft ws s = s"
  by (subst TrimLeft.simps) simp

subsection \<open>Stdin heuristic\<close>

lemma ContainsAny_iff: "ContainsAny s chars \<longleftrightarrow> (\<exists>c \<in> set s. c \<in> set chars)"
  by (simp add: ContainsAny_def list_ex_iff)

text \<open>
  C6. The derived \<open>use_stdin\<close> value is true if and only if stdin is piped, or stdin was
  requested explicitly, or the task text is longer than 800 bytes, or the task text contains
  a newline, backslash, double quote, single quote, backtick or dollar.
\<close>

theorem useStdin_iff:
  "useStdin explicitStdin taskText piped \<longleftrightarrow>
     piped \<or> explicitStdin \<or> length taskText > 800 \<or>
     (\<exists>c \<in> set taskText.
        c = CHR 0x0A \<or> c = CHR 0x5C \<or> c = CHR 0x22 \<or> c = CHR 0x27 \<or> c = CHR 0x60 \<or> c = CHR 0x24)"
  by (auto simp: useStdin_def ShouldUseStdin_def ContainsAny_iff stdinSpecialChars_def)

theorem useStdin_iff_witness:
  "useStdin False ''say $HOME'' False \<and> \<not> useStdin False ''plain task'' False"
  using useStdin_iff [of False "''say $HOME''" False] useStdin_iff [of False "''plain task''" False]
  by simp

subsection \<open>Parallel mode exit code\<close>

lemma exitCodeLoop_append:
  "exitCodeLoop c (xs @ ys) = exitCodeLoop (exitCodeLoop c xs) ys"
  by (induction xs arbitrary: c) simp_all

lemma exitCodeLoop_all_zero:
  "list_all (\<lambda>r. ExitCode r = 0) results \<Longrightarrow> exitCodeLoop c results = c"
  by (induction results arbitrary: c) simp_all


lemma layer_plan_forgets_insertion_order:
  "TopologicalSort dependentFirst = TopologicalSort dependentLast"
  by code_simp




subsection \<open>Codex argument vector\<close>

text \<open>
  C10 (amended). When \<open>Mode\<close> is \<open>resume\<close> and the session id is empty or only white
  space, \<open>BuildCodexArgs\<close> does not fail: it logs the invalid configuration and returns
  exactly the argument vector of the same configuration in mode \<open>new\<close>, which ends with
  \<open>-C workdir --json target\<close>; the token \<open>resume\<close> occurs in it exactly when the caller's
  own model, working directory or target is that word.
\<close>

theorem BuildCodexArgs_resume_blank_session:
  assumes "Config.Mode cfg = ''resume''" and "TrimSpace (Config.SessionID cfg) = ''''"
  shows "\<exists>args logs pre.
           BuildCodexArgs env (Some cfg) targetArg =
             Inr (args, LogError ''invalid config: resume mode requires non-empty session_id'' # logs) \<and>
           BuildCodexArgs env (Some (cfg\<lparr>Config.Mode := ''new''\<rparr>)) targetArg = Inr (args, logs) \<and>
           args = pre @ [''--skip-git-repo-check'', ''-C'', Config.WorkDir cfg, ''--json'', targetArg] \<and>
           (''resume'' \<in> set args \<longleftrightarrow>
              TrimSpace (Config.Model cfg) = ''resume'' \<or> Config.WorkDir cfg = ''resume'' \<or>
              targetArg = ''resume'')"
  using assms by (auto simp: BuildCodexArgs_def Let_def)

text \<open>
  A resume request whose session id is a space and a no-break space (U+00A0).
\<close>

theorem BuildCodexArgs_resume_blank_session_witness:
  "BuildCodexArgs Map.empty
     (Some \<lparr>Config.Mode = ''resume'', Task = ''do it'', SessionID = [CHR 0x20, CHR 0xC2, CHR 0xA0],
            WorkDir = ''/w'', Model = '''', ReasoningEffort = '''', ExplicitStdin = False,
            Timeout = 0, Backend = ''codex'', Agent = '''', PromptFile = '''',
            PromptFileExplicit = False, SkipPermissions = False, Yolo = False,
            MaxParallelWorkers = 0\<rparr>) ''do it'' =
   Inr ([''e'', ''--dangerously-bypass-approvals-and-sandbox'', ''--skip-git-repo-check'',
         ''-C'', ''/w'', ''--json'', ''do it''],
        [LogError ''invalid config: resume mode requires non-empty session_id'',
         LogWarn ''YOLO mode or CODEX_BYPASS_SANDBOX enabled: running without approval/sandbox protection''])"
proof -
  let ?cfg = "\<lparr>Config.Mode = ''resume'', Task = ''do it'', SessionID = [CHR 0x20, CHR 0xC2, CHR 0xA0],
            WorkDir = ''/w'', Model = '''', ReasoningEffort = '''', ExplicitStdin = False,
            Timeout = 0, Backend = ''codex'', Agent = '''', PromptFile = '''',
            PromptFileExplicit = False, SkipPermissions = False, Yolo = False,
            MaxParallelWorkers = 0\<rparr>"
  have h1: "Config.Mode ?cfg = ''resume''" by simp
  have h2: "TrimSpace (Config.SessionID ?cfg) = ''''" by code_simp
  have new: "BuildCodexArgs Map.empty (Some (?cfg\<lparr>Config.Mode := ''new''\<rparr>)) ''do it'' =
      Inr ([''e'', ''--dangerously-bypass-approvals-and-sandbox'', ''--skip-git-repo-check'',
            ''-C'', ''/w'', ''--json'', ''do it''],
           [LogWarn ''YOLO mode or CODEX_BYPASS_SANDBOX enabled: running without approval/sandbox protection''])"
    by code_simp
  from BuildCodexArgs_resume_blank_session [OF h1 h2, of Map.empty "''do it''"]
  obtain args logs where
    r: "BuildCodexArgs Map.empty (Some ?cfg) ''do it'' =
          Inr (args, LogError ''invalid config: resume mode requires non-empty session_id'' # logs)"
    and n: "BuildCodexArgs Map.empty (Some (?cfg\<lparr>Config.Mode := ''new''\<rparr>)) ''do it'' = Inr (args, logs)"
    by blast
  from n new have "args = [''e'', ''--dangerously-bypass-approvals-and-sandbox'', ''--skip-git-repo-check'',
         ''-C'', ''/w'', ''--json'', ''do it''] \<and>
       logs = [LogWarn ''YOLO mode or CODEX_BYPASS_SANDBOX enabled: running without approval/sandbox protection'']"
    by simp
  with r show ?thesis by simp
qed

text \<open>
  C10 as stated fails: with a blank session id and the model \<open>resume\<close>, the new-mode
  argument vector that \<open>BuildCodexArgs\<close> falls back to holds the token \<open>resume\<close>, as the
  value of \<open>--model\<close>.
\<close>

theorem resume_token_counterexample:
  "BuildCodexArgs Map.empty
     (Some \<lparr>Config.Mode = ''resume'', Task = ''do it'', SessionID = '' '', WorkDir = ''/w'',
            Model = ''resume'', ReasoningEffort = '''', ExplicitStdin = False, Timeout = 0,
            Backend = ''codex'', Agent = '''', PromptFile = '''', PromptFileExplicit = False,
            SkipPermissions = False, Yolo = False, MaxParallelWorkers = 0\<rparr>) ''do it'' =
   Inr ([''e'', ''--dangerously-bypass-approvals-and-sandbox'', ''--model'', ''resume'',
         ''--skip-git-repo-check'', ''-C'', ''/w'', ''--json'', ''do it''],
        [LogError ''invalid config: resume mode requires non-empty session_id'',
         LogWarn ''YOLO mode or CODEX_BYPASS_SANDBOX enabled: running without approval/sandbox protection'']) \<and>
   ''resume'' \<in> set [''e'', ''--dangerously-bypass-approvals-and-sandbox'', ''--model'', ''resume'',
         ''--skip-git-repo-check'', ''-C'', ''/w'', ''--json'', ''do it'']"
  by code_simp

subsection \<open>Stream normalizer: the read loop as a fold over the lines\<close>

lemma streamLoop_fold:
  "streamLoop dec rp st =
     finishStream (snd (streamLines rp)) (foldl (lineStep dec) st (fst (streamLines rp)))"
proof (induction dec rp st rule: streamLoop.induct)
  case (1 dec rp st)
  obtain line tooLong err rp' where
    rd: "readLineWithLimit rp jsonLineMaxBytes jsonLinePreviewBytes = ((line, tooLong, err), rp')"
    by (metis prod.exhaust)
  show ?case
  proof (cases err)
    case None
    from "1.IH" [OF rd [symmetric, unfolded None] refl refl refl]
    have ih: "streamLoop dec rp' (handleLine dec line tooLong st) =
        finishStream (snd (streamLines rp'))
          (foldl (lineStep dec) (handleLine dec line tooLong st) (fst (streamLines rp')))"
      by simp
    show ?thesis
      by (subst streamLoop.simps, subst (1 2) streamLines.simps)
         (simp add: rd None ih lineStep_def split: prod.splits)
  next
    case (Some e)
    show ?thesis
      by (subst streamLoop.simps, subst (1 2) streamLines.simps)
         (simp add: rd Some finishStream_def split: read_error.splits)
  qed
qed

lemma finishStream_fields [simp]:
  "opencodeMessage (finishStream err st) = opencodeMessage st"
  "geminiBuffer (finishStream err st) = geminiBuffer st"
  "claudeMessage (finishStream err st) = claudeMessage st"
  "codexMessage (finishStream err st) = codexMessage st"
  "threadID (finishStream err st) = threadID st"
  "callbacks (finishStream err st) = callbacks st"
  by (simp_all add: finishStream_def warnFn_def split: read_error.splits)

lemma warnFn_fields [simp]:
  "opencodeMessage (warnFn w st) = opencodeMessage st"
  "geminiBuffer (warnFn w st) = geminiBuffer st"
  "claudeMessage (warnFn w st) = claudeMessage st"
  "codexMessage (warnFn w st) = codexMessage st"
  "threadID (warnFn w st) = threadID st"
  "callbacks (warnFn w st) = callbacks st"
  "totalEvents (warnFn w st) = totalEvents st"
  "warnings (warnFn w st) = warnings st @ [w]"
  by (simp_all add: warnFn_def)

lemma notify_fields [simp]:
  "opencodeMessage (notifyMessage st) = opencodeMessage st"
  "geminiBuffer (notifyMessage st) = geminiBuffer st"
  "claudeMessage (notifyMessage st) = claudeMessage st"
  "codexMessage (notifyMessage st) = codexMessage st"
  "opencodeMessage (notifyComplete st) = opencodeMessage st"
  "geminiBuffer (notifyComplete st) = geminiBuffer st"
  "claudeMessage (notifyComplete st) = claudeMessage st"
  "codexMessage (notifyComplete st) = codexMessage st"
  by (simp_all add: notifyMessage_def notifyComplete_def)

lemma handleOpencode_buffers:
  "opencodeMessage (handleOpencode dec e st) =
     opencodeMessage st @ (case unmarshalPart dec (Part e) of Inl err \<Rightarrow> []
        | Inr part \<Rightarrow> if UnifiedEvent.Type e = ''text'' \<and> Text part \<noteq> '''' then Text part else [])"
  "geminiBuffer (handleOpencode dec e st) = geminiBuffer st"
  "claudeMessage (handleOpencode dec e st) = claudeMessage st"
  "codexMessage (handleOpencode dec e st) = codexMessage st"
  by (simp_all add: handleOpencode_def Let_def split: sum.splits)
lemma handleClaude_buffers:
  "opencodeMessage (handleClaude e st) = opencodeMessage st"
  "geminiBuffer (handleClaude e st) = geminiBuffer st"
  "claudeMessage (handleClaude e st) = (if Result e \<noteq> '''' then Result e else claudeMessage st)"
  "codexMessage (handleClaude e st) = codexMessage st"
  by (simp_all add: handleClaude_def Let_def)

lemma handleGemini_buffers:
  "opencodeMessage (handleGemini e st) = opencodeMessage st"
  "geminiBuffer (handleGemini e st) = geminiBuffer st @ Content e"
  "claudeMessage (handleGemini e st) = claudeMessage st"
  "codexMessage (handleGemini e st) = codexMessage st"
  by (simp_all add: handleGemini_def Let_def)
lemma handleCodex_buffers:
  "opencodeMessage (handleCodex dec e st) = opencodeMessage st"
  "geminiBuffer (handleCodex dec e st) = geminiBuffer st"
  "claudeMessage (handleCodex dec e st) = claudeMessage st"
  unfolding handleCodex_def Let_def
  by (simp_all split: sum.splits option.splits)
lemma handleCodex_codexMessage:
  "codexMessage (handleCodex dec e st) =
     (if UnifiedEvent.Type e = ''item.completed'' \<and> Item e \<noteq> '''' \<and>
         unmarshalItemHeader dec (Item e) = Some ''agent_message''
      then (case unmarshalItemContent dec (Item e) of
              Inl err \<Rightarrow> codexMessage st
            | Inr text \<Rightarrow> if NormalizeText text \<noteq> '''' then NormalizeText text else codexMessage st)
      else codexMessage st)"
proof (cases "UnifiedEvent.Type e = ''item.completed''")
  case False
  then show ?thesis by (simp add: handleCodex_def)
next
  case True
  show ?thesis
  proof (cases "Item e = ''''")
    case True
    with \<open>UnifiedEvent.Type e = ''item.completed''\<close> show ?thesis
      by (simp add: handleCodex_def)
  next
    case False
    show ?thesis
    proof (cases "unmarshalItemHeader dec (Item e)")
      case None
      with False \<open>UnifiedEvent.Type e = ''item.completed''\<close> show ?thesis
        by (simp add: handleCodex_def)
    next
      case (Some t)
      with False \<open>UnifiedEvent.Type e = ''item.completed''\<close> show ?thesis
        by (cases "t = ''agent_message''") (simp_all add: handleCodex_def Let_def split: sum.splits)
    qed
  qed
qed

lemma handleEvent_opencodeMessage:
  "opencodeMessage (handleEvent dec e st) =
     opencodeMessage st @ (case opencodeText dec e of None \<Rightarrow> [] | Some t \<Rightarrow> t)"
  by (simp add: handleEvent_def opencodeText_def handleOpencode_buffers handleCodex_buffers
        handleClaude_buffers handleGemini_buffers split: sum.splits)

lemma handleEvent_geminiBuffer:
  "geminiBuffer (handleEvent dec e st) =
     geminiBuffer st @ (case geminiContent dec e of None \<Rightarrow> [] | Some t \<Rightarrow> t)"
  by (simp add: handleEvent_def geminiContent_def handleOpencode_buffers handleCodex_buffers
        handleClaude_buffers handleGemini_buffers)

lemma handleEvent_claudeMessage:
  "claudeMessage (handleEvent dec e st) =
     (case claudeResult dec e of None \<Rightarrow> claudeMessage st | Some t \<Rightarrow> t)"
  by (simp add: handleEvent_def claudeResult_def handleOpencode_buffers handleCodex_buffers
        handleClaude_buffers handleGemini_buffers)

lemma handleEvent_codexMessage:
  "codexMessage (handleEvent dec e st) =
     (case codexAgentMessage dec e of None \<Rightarrow> codexMessage st | Some t \<Rightarrow> t)"
proof (cases "isOpencode e")
  case True
  then show ?thesis
    by (simp add: handleEvent_def codexAgentMessage_def handleOpencode_buffers)
next
  case False
  show ?thesis
  proof (cases "isCodex dec e")
    case True
    with False show ?thesis
      by (simp add: handleEvent_def codexAgentMessage_def handleCodex_codexMessage
            split: sum.splits)
  next
    case False
    with \<open>\<not> isOpencode e\<close> show ?thesis
      by (simp add: handleEvent_def codexAgentMessage_def handleClaude_buffers handleGemini_buffers)
  qed
qed

subsection \<open>What one line does to the four message variables\<close>

lemma lineStep_opencodeMessage:
  "opencodeMessage (lineStep dec st lt) =
     opencodeMessage st @
       (case Option.bind (lineEvent dec lt) (opencodeText dec) of None \<Rightarrow> [] | Some t \<Rightarrow> t)"
  by (cases lt)
     (simp add: lineStep_def handleLine_def lineEvent_def Let_def handleEvent_opencodeMessage
        split: option.splits)

lemma lineStep_geminiBuffer:
  "geminiBuffer (lineStep dec st lt) =
     geminiBuffer st @
       (case Option.bind (lineEvent dec lt) (geminiContent dec) of None \<Rightarrow> [] | Some t \<Rightarrow> t)"
  by (cases lt)
     (simp add: lineStep_def handleLine_def lineEvent_def Let_def handleEvent_geminiBuffer
        split: option.splits)

lemma lineStep_claudeMessage:
  "claudeMessage (lineStep dec st lt) =
     (case Option.bind (lineEvent dec lt) (claudeResult dec) of
        None \<Rightarrow> claudeMessage st | Some t \<Rightarrow> t)"
  by (cases lt)
     (simp add: lineStep_def handleLine_def lineEvent_def Let_def handleEvent_claudeMessage
        split: option.splits)

lemma lineStep_codexMessage:
  "codexMessage (lineStep dec st lt) =
     (case Option.bind (lineEvent dec lt) (codexAgentMessage dec) of
        None \<Rightarrow> codexMessage st | Some t \<Rightarrow> t)"
  by (cases lt)
     (simp add: lineStep_def handleLine_def lineEvent_def Let_def handleEvent_codexMessage
        split: option.splits)

subsection \<open>The four message variables at the end of the stream\<close>

lemma foldl_opencodeMessage:
  "opencodeMessage (foldl (lineStep dec) st ls) =
     opencodeMessage st @
       concat (List.map_filter (opencodeText dec) (List.map_filter (lineEvent dec) ls))"
proof (induction ls arbitrary: st)
  case Nil
  show ?case by (simp add: map_filter_simps)
next
  case (Cons lt ls)
  show ?case
    by (cases "lineEvent dec lt"; cases "Option.bind (lineEvent dec lt) (opencodeText dec)")
       (simp_all add: Cons.IH map_filter_simps lineStep_opencodeMessage)
qed

lemma foldl_geminiBuffer:
  "geminiBuffer (foldl (lineStep dec) st ls) =
     geminiBuffer st @
       concat (List.map_filter (geminiContent dec) (List.map_filter (lineEvent dec) ls))"
proof (induction ls arbitrary: st)
  case Nil
  show ?case by (simp add: map_filter_simps)
next
  case (Cons lt ls)
  show ?case
    by (cases "lineEvent dec lt"; cases "Option.bind (lineEvent dec lt) (geminiContent dec)")
       (simp_all add: Cons.IH map_filter_simps lineStep_geminiBuffer)
qed

lemma foldl_claudeMessage:
  "claudeMessage (foldl (lineStep dec) st ls) =
     (let rs = List.map_filter (claudeResult dec) (List.map_filter (lineEvent dec) ls)
      in if rs = [] then claudeMessage st else last rs)"
proof (induction ls arbitrary: st)
  case Nil
  show ?case by (simp add: map_filter_simps)
next
  case (Cons lt ls)
  show ?case
    by (cases "lineEvent dec lt"; cases "Option.bind (lineEvent dec lt) (claudeResult dec)")
       (simp_all add: Cons.IH map_filter_simps lineStep_claudeMessage Let_def)
qed

lemma foldl_codexMessage:
  "codexMessage (foldl (lineStep dec) st ls) =
     (let ms = List.map_filter (codexAgentMessage dec) (List.map_filter (lineEvent dec) ls)
      in if ms = [] then codexMessage st else last ms)"
proof (induction ls arbitrary: st)
  case Nil
  show ?case by (simp add: map_filter_simps)
next
  case (Cons lt ls)
  show ?case
    by (cases "lineEvent dec lt"; cases "Option.bind (lineEvent dec lt) (codexAgentMessage dec)")
       (simp_all add: Cons.IH map_filter_simps lineStep_codexMessage Let_def)
qed

lemma claudeResult_nonempty:
  "r \<in> set (List.map_filter (claudeResult dec) evs) \<Longrightarrow> r \<noteq> ''''"
  by (auto simp: List.map_filter_def claudeResult_def split: if_splits)

lemma codexAgentMessage_nonempty:
  "m \<in> set (List.map_filter (codexAgentMessage dec) evs) \<Longrightarrow> m \<noteq> ''''"
  by (auto simp: List.map_filter_def codexAgentMessage_def split: if_splits sum.splits)

text \<open>
  C5. At the end of the stream the message is chosen by a fixed priority: the text
  appended by opencode events when it is not empty; otherwise the content appended by
  gemini events when it is not empty; otherwise the last claude result when one was seen;
  otherwise the last codex agent message (the empty string when there was none).
\<close>

theorem end_of_stream_priority:
  "fst (fst (ParseJSONStreamInternal dec r)) =
     (let evs = streamEvents dec r;
          opencode = concat (List.map_filter (opencodeText dec) evs);
          gemini = concat (List.map_filter (geminiContent dec) evs);
          claude = List.map_filter (claudeResult dec) evs;
          codex = List.map_filter (codexAgentMessage dec) evs
      in if opencode \<noteq> '''' then opencode
         else if gemini \<noteq> '''' then gemini
         else if claude \<noteq> [] then last claude
         else if codex \<noteq> [] then last codex
         else '''')"
proof -
  let ?evs = "streamEvents dec r"
  let ?st = "streamLoop dec (Some r) initialState"
  have oc: "opencodeMessage ?st = concat (List.map_filter (opencodeText dec) ?evs)"
    by (simp add: streamLoop_fold foldl_opencodeMessage streamEvents_def initialState_def)
  have gm: "geminiBuffer ?st = concat (List.map_filter (geminiContent dec) ?evs)"
    by (simp add: streamLoop_fold foldl_geminiBuffer streamEvents_def initialState_def)
  have cl: "claudeMessage ?st =
      (if List.map_filter (claudeResult dec) ?evs = [] then ''''
       else last (List.map_filter (claudeResult dec) ?evs))"
    by (simp add: streamLoop_fold foldl_claudeMessage streamEvents_def initialState_def Let_def)
  have cx: "codexMessage ?st =
      (if List.map_filter (codexAgentMessage dec) ?evs = [] then ''''
       else last (List.map_filter (codexAgentMessage dec) ?evs))"
    by (simp add: streamLoop_fold foldl_codexMessage streamEvents_def initialState_def Let_def)
  have cl_ne: "List.map_filter (claudeResult dec) ?evs \<noteq> [] \<Longrightarrow>
      last (List.map_filter (claudeResult dec) ?evs) \<noteq> ''''"
    using claudeResult_nonempty [of _ dec ?evs] last_in_set by blast
  show ?thesis
    unfolding ParseJSONStreamInternal_def Let_def selectMessage_def fst_conv oc gm cl cx
    using cl_ne by simp
qed

theorem end_of_stream_priority_witness:
  \<open>fst (fst (ParseJSONStreamInternal exampleDecoders
     \<lparr>parts = [(''{"type":"thread.started","thread_id":"T1"}'', False),
               (''{"type":"item.completed","item":{"type":"agent_message","text":"hello"}}'', False),
               (''{"type":"result","subtype":"ok","session_id":"S","result":"done"}'', False),
               (''{"type":"thread.completed","thread_id":"T1"}'', False)],
      final = EOF\<rparr>)) = ''done''\<close>
  unfolding end_of_stream_priority by code_simp

subsection \<open>Line framing: what readLineWithLimit returns for a complete line\<close>

lemma preview_step:
  assumes "0 \<le> previewBytes"
  shows "(if previewBytes > 0 \<and> len (slice_to seen previewBytes) < previewBytes
          then slice_to seen previewBytes @
               slice_to part (min (previewBytes - len (slice_to seen previewBytes)) (len part))
          else slice_to seen previewBytes) = slice_to (seen @ part) previewBytes"
proof (cases "int (length seen) < previewBytes")
  case True
  then have "length seen < nat previewBytes" by linarith
  then show ?thesis using True assms
    by (auto simp: len_def slice_to_def min_def nat_diff_distrib' nat_le_iff)
next
  case False
  then have "nat previewBytes \<le> length seen" by linarith
  then show ?thesis using False assms
    by (auto simp: len_def slice_to_def min_def)
qed

lemma prefixLoop_complete_line:
  assumes "list_all snd ps" and "0 \<le> previewBytes"
    and "preview = slice_to seen previewBytes"
    and "tooLong \<longleftrightarrow> len seen > maxBytes"
    and "\<not> tooLong \<longrightarrow> buf = seen \<and> totalBytes = len seen"
  shows "prefixLoop maxBytes previewBytes fin preview buf totalBytes tooLong (ps @ (p, False) # rest) =
     (if len (seen @ concat (map fst ps) @ p) > maxBytes
      then ((slice_to (seen @ concat (map fst ps) @ p) previewBytes, True, None), rest)
      else ((seen @ concat (map fst ps) @ p, False, None), rest))"
  using assms
proof (induction ps arbitrary: seen preview buf totalBytes tooLong)
  case Nil
  have pv: "(if previewBytes > 0 \<and> len preview < previewBytes
          then preview @ slice_to p (min (previewBytes - len preview) (len p))
          else preview) = slice_to (seen @ p) previewBytes"
    unfolding Nil.prems(3) using preview_step [OF Nil.prems(2)] .
  show ?case
  proof (cases tooLong)
    case True
    with Nil.prems(4) have "len (seen @ p) > maxBytes" by (simp add: len_def)
    with True pv show ?thesis by (simp add: Let_def)
  next
    case False
    with Nil.prems(5) have bt: "buf = seen" "totalBytes = len seen" by simp_all
    from False bt pv show ?thesis by (simp add: Let_def len_def)
  qed
next
  case (Cons pb ps)
  obtain part where pb: "pb = (part, True)" using Cons.prems(1) by (cases pb) simp
  have all: "list_all snd ps" using Cons.prems(1) by simp
  let ?preview' = "slice_to (seen @ part) previewBytes"
  have pv: "(if previewBytes > 0 \<and> len preview < previewBytes
          then preview @ slice_to part (min (previewBytes - len preview) (len part))
          else preview) = ?preview'"
    unfolding Cons.prems(3) using preview_step [OF Cons.prems(2)] .
  let ?over = "\<not> tooLong \<and> totalBytes + len part > maxBytes"
  let ?tooLong' = "tooLong \<or> ?over"
  let ?buf' = "if \<not> tooLong \<and> \<not> ?over then buf @ part else buf"
  let ?total' = "if \<not> tooLong \<and> \<not> ?over then totalBytes + len part else totalBytes"
  have tl: "?tooLong' \<longleftrightarrow> len (seen @ part) > maxBytes"
    using Cons.prems(4,5) by (cases tooLong) (auto simp: len_def)
  have bt: "\<not> ?tooLong' \<longrightarrow> ?buf' = seen @ part \<and> ?total' = len (seen @ part)"
    using Cons.prems(5) by (auto simp: len_def)
  have step: "prefixLoop maxBytes previewBytes fin preview buf totalBytes tooLong
                ((pb # ps) @ (p, False) # rest) =
              prefixLoop maxBytes previewBytes fin ?preview' ?buf' ?total' ?tooLong'
                (ps @ (p, False) # rest)"
    unfolding pb by (simp add: Let_def pv)
  have ih: "prefixLoop maxBytes previewBytes fin ?preview' ?buf' ?total' ?tooLong'
                (ps @ (p, False) # rest) =
     (if len ((seen @ part) @ concat (map fst ps) @ p) > maxBytes
      then ((slice_to ((seen @ part) @ concat (map fst ps) @ p) previewBytes, True, None), rest)
      else (((seen @ part) @ concat (map fst ps) @ p, False, None), rest))"
    by (rule Cons.IH [OF all Cons.prems(2) refl tl bt])
  show ?case
    unfolding step ih by (simp add: pb)
qed

text \<open>
  A complete line: parts flagged \<open>isPrefix\<close> and a last part that is not. The function
  returns the whole line when it fits in \<open>maxBytes\<close>, else its first \<open>previewBytes\<close>
  bytes with \<open>tooLong\<close> set, and leaves the reader after the line.
\<close>

lemma readLineWithLimit_complete_line:
  assumes "list_all snd ps" and "0 < maxBytes" and "0 \<le> previewBytes"
    and "parts r = ps @ (p, False) # rest"
  shows "readLineWithLimit (Some r) maxBytes previewBytes =
     (if len (concat (map fst ps) @ p) > maxBytes
      then ((slice_to (concat (map fst ps) @ p) previewBytes, True, None), Some (r\<lparr>parts := rest\<rparr>))
      else ((concat (map fst ps) @ p, False, None), Some (r\<lparr>parts := rest\<rparr>)))"
proof (cases ps)
  case Nil
  with assms show ?thesis
    by (auto simp: readLineWithLimit_def Let_def slice_to_def len_def min_def)
next
  case (Cons pb ps')
  obtain part where pb: "pb = (part, True)" using assms(1) Cons by (cases pb) simp
  have all: "list_all snd ps'" using assms(1) Cons by simp
  let ?preview = "if previewBytes > 0 then slice_to part (min previewBytes (len part)) else []"
  let ?tooLong = "len part > maxBytes"
  let ?buf = "if ?tooLong then [] else part"
  let ?total = "if ?tooLong then 0 else len part"
  have pv: "?preview = slice_to ([] @ part) previewBytes"
    using assms(3) by (auto simp: slice_to_def len_def min_def)
  have tl: "?tooLong \<longleftrightarrow> len ([] @ part) > maxBytes" by simp
  have bt: "\<not> ?tooLong \<longrightarrow> ?buf = [] @ part \<and> ?total = len ([] @ part)" by simp
  have loop: "prefixLoop maxBytes previewBytes (final r) ?preview ?buf ?total ?tooLong
                (ps' @ (p, False) # rest) =
     (if len (([] @ part) @ concat (map fst ps') @ p) > maxBytes
      then ((slice_to (([] @ part) @ concat (map fst ps') @ p) previewBytes, True, None), rest)
      else ((([] @ part) @ concat (map fst ps') @ p, False, None), rest))"
    by (rule prefixLoop_complete_line [OF all assms(3) pv tl bt])
  have parts: "parts r = (part, True) # ps' @ (p, False) # rest"
    using assms(4) Cons pb by simp
  have unfold: "readLineWithLimit (Some r) maxBytes previewBytes =
      (case prefixLoop maxBytes previewBytes (final r) ?preview ?buf ?total ?tooLong
              (ps' @ (p, False) # rest) of
         (res, rest') \<Rightarrow> (res, Some (r\<lparr>parts := rest'\<rparr>)))"
    using assms(2,3) by (simp add: readLineWithLimit_def Let_def parts)
  show ?thesis
    unfolding unfold loop by (simp add: Cons pb)
qed

subsection \<open>The read loop after a complete line\<close>

lemma streamLoop_complete_line:
  assumes "list_all snd ps" and "parts r = ps @ (p, False) # rest"
  shows "streamLoop dec (Some r) st =
     streamLoop dec (Some (r\<lparr>parts := rest\<rparr>))
       (if len (concat (map fst ps) @ p) > jsonLineMaxBytes
        then handleLine dec (slice_to (concat (map fst ps) @ p) jsonLinePreviewBytes) True st
        else handleLine dec (concat (map fst ps) @ p) False st)"
proof -
  have m: "0 < jsonLineMaxBytes" and pv: "0 \<le> jsonLinePreviewBytes"
    by (simp_all add: jsonLineMaxBytes_def jsonLinePreviewBytes_def)
  show ?thesis
    by (subst streamLoop.simps)
       (simp add: readLineWithLimit_complete_line [OF assms(1) m pv assms(2)])
qed

lemma streamLoop_end:
  "parts r = [] \<Longrightarrow> streamLoop dec (Some r) st = finishStream (final r) st"
  by (subst streamLoop.simps)
     (simp add: readLineWithLimit_def jsonLineMaxBytes_def finishStream_def
        split: read_error.splits)

subsection \<open>Warnings issued earlier do not change what follows\<close>

lemma earlier_fields [simp]:
  "threadID (earlier k ws st) = threadID st"
  "opencodeMessage (earlier k ws st) = opencodeMessage st"
  "geminiBuffer (earlier k ws st) = geminiBuffer st"
  "claudeMessage (earlier k ws st) = claudeMessage st"
  "codexMessage (earlier k ws st) = codexMessage st"
  "callbacks (earlier k ws st) = callbacks st"
  "warnings (earlier k ws st) = ws @ warnings st"
  "totalEvents (earlier k ws st) = k + totalEvents st"
  by (simp_all add: earlier_def)

lemma earlier_commutes [simp]:
  "(earlier k ws st)\<lparr>threadID := t\<rparr> = earlier k ws (st\<lparr>threadID := t\<rparr>)"
  "(earlier k ws st)\<lparr>opencodeMessage := m\<rparr> = earlier k ws (st\<lparr>opencodeMessage := m\<rparr>)"
  "(earlier k ws st)\<lparr>geminiBuffer := m\<rparr> = earlier k ws (st\<lparr>geminiBuffer := m\<rparr>)"
  "(earlier k ws st)\<lparr>claudeMessage := m\<rparr> = earlier k ws (st\<lparr>claudeMessage := m\<rparr>)"
  "(earlier k ws st)\<lparr>codexMessage := m\<rparr> = earlier k ws (st\<lparr>codexMessage := m\<rparr>)"
  "warnFn w (earlier k ws st) = earlier k ws (warnFn w st)"
  "notifyMessage (earlier k ws st) = earlier k ws (notifyMessage st)"
  "notifyComplete (earlier k ws st) = earlier k ws (notifyComplete st)"
  by (simp_all add: earlier_def warnFn_def notifyMessage_def notifyComplete_def)

lemma earlier_count:
  "(earlier k ws st)\<lparr>totalEvents := totalEvents (earlier k ws st) + 1\<rparr> =
   earlier k ws (st\<lparr>totalEvents := totalEvents st + 1\<rparr>)"
  by (simp add: earlier_def)

lemma handleOpencode_earlier:
  "handleOpencode dec e (earlier k ws st) = earlier k ws (handleOpencode dec e st)"
proof (cases "unmarshalPart dec (Part e)")
  case (Inl err)
  then show ?thesis by (simp add: handleOpencode_def Let_def)
next
  case (Inr part)
  then show ?thesis
    by (cases "threadID st = ''''"; cases "OpencodePart.SessionID part = ''''")
       (simp_all add: handleOpencode_def Let_def)
qed
lemma handleCodex_earlier:
  "handleCodex dec e (earlier k ws st) = earlier k ws (handleCodex dec e st)"
proof -
  consider (started) "UnifiedEvent.Type e = ''thread.started''"
    | (completed) "UnifiedEvent.Type e = ''thread.completed''"
    | (turn) "UnifiedEvent.Type e = ''turn.completed''"
    | (item) "UnifiedEvent.Type e = ''item.completed''"
    | (other) "UnifiedEvent.Type e \<noteq> ''thread.started''" "UnifiedEvent.Type e \<noteq> ''thread.completed''"
        "UnifiedEvent.Type e \<noteq> ''turn.completed''" "UnifiedEvent.Type e \<noteq> ''item.completed''"
    by blast
  then show ?thesis
  proof cases
    case started
    then show ?thesis by (simp add: handleCodex_def)
  next
    case completed
    then show ?thesis by (simp add: handleCodex_def)
  next
    case turn
    then show ?thesis by (simp add: handleCodex_def)
  next
    case item
    show ?thesis
    proof (cases "Item e \<noteq> '''' \<and> unmarshalItemHeader dec (Item e) = Some ''agent_message''")
      case True
      with item show ?thesis
        by (cases "unmarshalItemContent dec (Item e)") (simp_all add: handleCodex_def Let_def)
    next
      case False
      show ?thesis
      proof (cases "Item e = ''''")
        case True
        with item show ?thesis by (simp add: handleCodex_def)
      next
        case nonempty: False
        show ?thesis
        proof (cases "unmarshalItemHeader dec (Item e)")
          case None
          with item nonempty show ?thesis by (simp add: handleCodex_def)
        next
          case (Some t)
          with False nonempty have "t \<noteq> ''agent_message''" by simp
          with item nonempty Some show ?thesis by (simp add: handleCodex_def)
        qed
      qed
    qed
  next
    case other
    then show ?thesis by (simp add: handleCodex_def)
  qed
qed
lemma handleClaude_earlier:
  "handleClaude e (earlier k ws st) = earlier k ws (handleClaude e st)"
  by (simp add: handleClaude_def Let_def)

lemma handleGemini_earlier:
  "handleGemini e (earlier k ws st) = earlier k ws (handleGemini e st)"
  by (auto simp add: handleGemini_def Let_def)


lemma handleEvent_earlier:
  "handleEvent dec e (earlier k ws st) = earlier k ws (handleEvent dec e st)"
  by (simp add: handleEvent_def handleOpencode_earlier handleCodex_earlier
        handleClaude_earlier handleGemini_earlier)

lemma handleLine_earlier:
  "handleLine dec line tooLong (earlier k ws st) = earlier k ws (handleLine dec line tooLong st)"
  unfolding handleLine_def Let_def earlier_count
  by (simp add: handleEvent_earlier split: option.splits)

lemma foldl_lineStep_earlier:
  "foldl (lineStep dec) (earlier k ws st) ls = earlier k ws (foldl (lineStep dec) st ls)"
  by (induction ls arbitrary: st) (simp_all add: lineStep_def handleLine_earlier)

lemma streamLoop_earlier:
  "streamLoop dec rp (earlier k ws st) = earlier k ws (streamLoop dec rp st)"
  by (simp add: streamLoop_fold foldl_lineStep_earlier finishStream_def split: read_error.splits)

lemma oversized_line_state:
  assumes "TrimSpace preview \<noteq> ''''"
  shows "handleLine dec preview True st =
     earlier 1 [] (warnFn (''Skipped overlong JSON line (> 10485760 bytes): '' @
                             TruncateBytes (TrimSpace preview) 100) st)"
  using assms by (simp add: handleLine_def Let_def earlier_def warnFn_def)

subsection \<open>Oversized lines\<close>

lemma selectMessage_earlier [simp]:
  "selectMessage (earlier k ws st) = selectMessage st"
  by (simp add: selectMessage_def)

lemma selectMessage_warnFn [simp]:
  "selectMessage (warnFn w st) = selectMessage st"
  by (simp add: selectMessage_def)

lemma finishStream_earlier:
  "finishStream err (earlier k ws st) = earlier k ws (finishStream err st)"
  by (cases err) (simp_all add: finishStream_def)

lemma whole_split:
  assumes "ps \<noteq> []" and "\<not> snd (last ps)"
  shows "\<exists>qs p rest. ps = qs @ (p, False) # rest \<and> list_all snd qs \<and> wholeLines rest \<and>
           length rest < length ps"
proof -
  let ?qs = "takeWhile snd ps"
  from assms have "dropWhile snd ps \<noteq> []"
    using last_in_set [of ps] by (auto simp: dropWhile_eq_Nil_conv)
  then obtain x rest where d: "dropWhile snd ps = x # rest"
    by (cases "dropWhile snd ps") auto
  from hd_dropWhile [of snd ps] d have nx: "\<not> snd x" by simp
  from takeWhile_dropWhile_id [of snd ps] d have ps: "ps = ?qs @ x # rest" by simp
  have qs: "list_all snd ?qs"
    using set_takeWhileD [of _ snd ps] by (auto simp: list_all_iff)
  have whole: "wholeLines rest"
  proof (cases "rest = []")
    case True
    then show ?thesis by (simp add: wholeLines_def)
  next
    case False
    with ps have "last ps = last rest" by (metis last_appendR last_ConsR list.distinct(1))
    with assms(2) show ?thesis by (simp add: wholeLines_def)
  qed
  from ps have len: "length rest < length ps"
    by (metis length_append length_Cons less_Suc_eq_le le_add2 add_Suc_right)
  obtain p where x: "x = (p, False)" using nx by (cases x) auto
  from ps qs whole len x show ?thesis by blast
qed

lemma streamLines_end:
  "streamLines (Some \<lparr>parts = [], final = e\<rparr>) = ([], e)"
  by (subst streamLines.simps)
     (simp add: readLineWithLimit_def jsonLineMaxBytes_def)

lemma streamLines_complete_line:
  assumes "list_all snd ps"
  shows "streamLines (Some \<lparr>parts = ps @ (p, False) # rest, final = e\<rparr>) =
     ((if len (concat (map fst ps) @ p) > jsonLineMaxBytes
       then (slice_to (concat (map fst ps) @ p) jsonLinePreviewBytes, True)
       else (concat (map fst ps) @ p, False)) #
        fst (streamLines (Some \<lparr>parts = rest, final = e\<rparr>)),
      snd (streamLines (Some \<lparr>parts = rest, final = e\<rparr>)))"
proof -
  have m: "0 < jsonLineMaxBytes" and pv: "0 \<le> jsonLinePreviewBytes"
    by (simp_all add: jsonLineMaxBytes_def jsonLinePreviewBytes_def)
  let ?r = "\<lparr>parts = ps @ (p, False) # rest, final = e\<rparr>"
  have parts: "parts ?r = ps @ (p, False) # rest" by simp
  show ?thesis
    by (subst streamLines.simps)
       (simp add: readLineWithLimit_complete_line [OF assms m pv parts] split: prod.splits)
qed

lemma streamLines_append:
  assumes "wholeLines pre"
  shows "streamLines (Some \<lparr>parts = pre @ rest, final = e\<rparr>) =
     (fst (streamLines (Some \<lparr>parts = pre, final = e'\<rparr>)) @
        fst (streamLines (Some \<lparr>parts = rest, final = e\<rparr>)),
      snd (streamLines (Some \<lparr>parts = rest, final = e\<rparr>)))"
  using assms
proof (induction "length pre" arbitrary: pre rule: less_induct)
  case less
  show ?case
  proof (cases "pre = []")
    case True
    then show ?thesis by (simp add: streamLines_end)
  next
    case False
    with less.prems have "\<not> snd (last pre)" by (simp add: wholeLines_def)
    from whole_split [OF False this] obtain qs p pre' where
      pre: "pre = qs @ (p, False) # pre'" and qs: "list_all snd qs"
      and whole: "wholeLines pre'" and len: "length pre' < length pre"
      by blast
    from less.hyps [OF len whole]
    have ih: "streamLines (Some \<lparr>parts = pre' @ rest, final = e\<rparr>) =
       (fst (streamLines (Some \<lparr>parts = pre', final = e'\<rparr>)) @
          fst (streamLines (Some \<lparr>parts = rest, final = e\<rparr>)),
        snd (streamLines (Some \<lparr>parts = rest, final = e\<rparr>)))" .
    have a: "pre @ rest = qs @ (p, False) # (pre' @ rest)" by (simp add: pre)
    show ?thesis
      unfolding a
      unfolding pre streamLines_complete_line [OF qs] ih
      by simp
  qed
qed

lemma streamLines_whole_final:
  assumes "wholeLines pre"
  shows "snd (streamLines (Some \<lparr>parts = pre, final = e\<rparr>)) = e"
proof -
  from streamLines_append [OF assms, of "[]" e e]
  have "snd (streamLines (Some \<lparr>parts = pre, final = e\<rparr>)) =
        snd (streamLines (Some \<lparr>parts = [], final = e\<rparr>))"
    by (simp add: prod_eq_iff)
  then show ?thesis by (simp add: streamLines_end)
qed

lemma ParseJSONStreamInternal_fold:
  "ParseJSONStreamInternal dec r =
     (let st = finishStream (snd (streamLines (Some r)))
                 (foldl (lineStep dec) initialState (fst (streamLines (Some r))))
      in ((selectMessage st, threadID st), warnings st, callbacks st))"
  by (simp add: ParseJSONStreamInternal_def streamLoop_fold)

lemma earlier_own_warnings:
  "st = earlier 0 (warnings st) (st\<lparr>warnings := []\<rparr>)"
  by (simp add: earlier_def)

lemma warnFn_no_warnings:
  "warnings st = [] \<Longrightarrow> warnFn w st = earlier 0 [w] st"
  by (simp add: warnFn_def earlier_def)

text \<open>
  The state of the read loop after an oversized line and the lines \<open>ls\<close> that follow it,
  against the state after the lines \<open>ls\<close> alone.
\<close>

lemma oversized_line_between:
  assumes "TrimSpace preview \<noteq> ''''"
  shows "finishStream e (foldl (lineStep dec) st ((preview, True) # ls)) =
     earlier 1 (warnings st @
                [''Skipped overlong JSON line (> 10485760 bytes): '' @
                   TruncateBytes (TrimSpace preview) 100])
       (finishStream e (foldl (lineStep dec) (st\<lparr>warnings := []\<rparr>) ls)) \<and>
     finishStream e (foldl (lineStep dec) st ls) =
     earlier 0 (warnings st) (finishStream e (foldl (lineStep dec) (st\<lparr>warnings := []\<rparr>) ls))"
proof -
  let ?w = "''Skipped overlong JSON line (> 10485760 bytes): '' @
              TruncateBytes (TrimSpace preview) 100"
  let ?s0 = "st\<lparr>warnings := []\<rparr>"
  have st: "st = earlier 0 (warnings st) ?s0" by (rule earlier_own_warnings)
  have "lineStep dec st (preview, True) = earlier 1 [] (warnFn ?w st)"
    by (simp add: lineStep_def oversized_line_state [OF assms])
  also have "warnFn ?w st = earlier 0 (warnings st) (warnFn ?w ?s0)"
    by (subst st) (simp only: earlier_commutes)
  also have "warnFn ?w ?s0 = earlier 0 [?w] ?s0"
    by (rule warnFn_no_warnings) simp
  finally have step: "lineStep dec st (preview, True) =
      earlier 1 [] (earlier 0 (warnings st) (earlier 0 [?w] ?s0))" .
  have merge: "earlier 1 [] (earlier 0 (warnings st) (earlier 0 [?w] x)) =
      earlier 1 (warnings st @ [?w]) x" for x
    by (simp add: earlier_def)
  have one: "finishStream e (foldl (lineStep dec) st ((preview, True) # ls)) =
      earlier 1 (warnings st @ [?w]) (finishStream e (foldl (lineStep dec) ?s0 ls))"
    by (simp add: step merge foldl_lineStep_earlier finishStream_earlier)
  have "finishStream e (foldl (lineStep dec) (earlier 0 (warnings st) ?s0) ls) =
      earlier 0 (warnings st) (finishStream e (foldl (lineStep dec) ?s0 ls))"
    by (simp only: foldl_lineStep_earlier finishStream_earlier)
  from this [unfolded st [symmetric]]
  have two: "finishStream e (foldl (lineStep dec) st ls) =
      earlier 0 (warnings st) (finishStream e (foldl (lineStep dec) ?s0 ls))" .
  from one two show ?thesis by simp
qed

text \<open>
  An oversized line between whole lines: the result of the stream with the line against
  the result of the stream without it.
\<close>

lemma oversized_line_in_stream:
  assumes "wholeLines pre"
    and "list_all snd ps"
    and "len (concat (map fst ps) @ p) > jsonLineMaxBytes"
    and "TrimSpace (slice_to (concat (map fst ps) @ p) jsonLinePreviewBytes) \<noteq> ''''"
  shows "ParseJSONStreamInternal dec \<lparr>parts = pre @ ps @ (p, False) # post, final = fin\<rparr> =
     (case ParseJSONStreamInternal dec \<lparr>parts = pre @ post, final = fin\<rparr> of
        (res, ws, cbs) \<Rightarrow>
          (res,
           take (length (fst (snd (ParseJSONStreamInternal dec \<lparr>parts = pre, final = EOF\<rparr>)))) ws @
           [''Skipped overlong JSON line (> 10485760 bytes): '' @
              TruncateBytes (TrimSpace (slice_to (concat (map fst ps) @ p) jsonLinePreviewBytes)) 100] @
           drop (length (fst (snd (ParseJSONStreamInternal dec \<lparr>parts = pre, final = EOF\<rparr>)))) ws,
           cbs))"
proof -
  let ?pv = "slice_to (concat (map fst ps) @ p) jsonLinePreviewBytes"
  let ?w = "''Skipped overlong JSON line (> 10485760 bytes): '' @ TruncateBytes (TrimSpace ?pv) 100"
  let ?before = "fst (streamLines (Some \<lparr>parts = pre, final = EOF\<rparr>))"
  let ?after = "fst (streamLines (Some \<lparr>parts = post, final = fin\<rparr>))"
  let ?e = "snd (streamLines (Some \<lparr>parts = post, final = fin\<rparr>))"
  let ?st = "foldl (lineStep dec) initialState ?before"
  let ?t = "finishStream ?e (foldl (lineStep dec) (?st\<lparr>warnings := []\<rparr>) ?after)"
  have line: "streamLines (Some \<lparr>parts = ps @ (p, False) # post, final = fin\<rparr>) =
      ((?pv, True) # ?after, ?e)"
    using assms(3) by (simp add: streamLines_complete_line [OF assms(2)])
  have with_lines: "streamLines (Some \<lparr>parts = pre @ ps @ (p, False) # post, final = fin\<rparr>) =
      (?before @ (?pv, True) # ?after, ?e)"
    by (simp add: streamLines_append [OF assms(1), of "ps @ (p, False) # post" fin EOF] line)
  have without_lines: "streamLines (Some \<lparr>parts = pre @ post, final = fin\<rparr>) =
      (?before @ ?after, ?e)"
    by (simp add: streamLines_append [OF assms(1), of post fin EOF])
  have pre_final: "snd (streamLines (Some \<lparr>parts = pre, final = EOF\<rparr>)) = EOF"
    by (rule streamLines_whole_final [OF assms(1)])
  from oversized_line_between [OF assms(4), of ?e dec ?st ?after]
  have one: "finishStream ?e (foldl (lineStep dec) ?st ((?pv, True) # ?after)) =
      earlier 1 (warnings ?st @ [?w]) ?t"
    and two: "finishStream ?e (foldl (lineStep dec) ?st ?after) = earlier 0 (warnings ?st) ?t"
    by simp_all
  have fold_with: "foldl (lineStep dec) initialState (?before @ (?pv, True) # ?after) =
      foldl (lineStep dec) ?st ((?pv, True) # ?after)"
    by (simp only: foldl_append)
  have fold_without: "foldl (lineStep dec) initialState (?before @ ?after) =
      foldl (lineStep dec) ?st ?after"
    by (simp only: foldl_append)
  have r_with: "ParseJSONStreamInternal dec \<lparr>parts = pre @ ps @ (p, False) # post, final = fin\<rparr> =
      ((selectMessage ?t, threadID ?t), warnings ?st @ [?w] @ warnings ?t, callbacks ?t)"
    unfolding ParseJSONStreamInternal_fold with_lines fst_conv snd_conv fold_with one Let_def
    by simp
  have r_without: "ParseJSONStreamInternal dec \<lparr>parts = pre @ post, final = fin\<rparr> =
      ((selectMessage ?t, threadID ?t), warnings ?st @ warnings ?t, callbacks ?t)"
    unfolding ParseJSONStreamInternal_fold without_lines fst_conv snd_conv fold_without two Let_def
    by simp
  have r_pre: "fst (snd (ParseJSONStreamInternal dec \<lparr>parts = pre, final = EOF\<rparr>)) = warnings ?st"
    unfolding ParseJSONStreamInternal_fold pre_final by (simp add: Let_def finishStream_def)
  show ?thesis
    unfolding r_with r_without r_pre by simp
qed

text \<open>
  C7 (amended). Take a line longer than 10 MiB that is read to its end (its last part is
  delivered before the input ends) and whose first 256 bytes are not all white space,
  wherever it stands in the stream. It is skipped with exactly one warning: the result is
  that of the stream without the line, with one more warning, issued after the warnings of
  the lines before it. The warning carries the 256-byte preview with its white space
  trimmed and cut to 100 bytes (followed by \<open>...\<close> when it was longer). Parsing goes on
  with the lines that follow, so a completion event after the line still yields its
  message.
\<close>

theorem oversized_line_skipped_with_warning:
  assumes "wholeLines pre"
    and "list_all snd ps"
    and "length (concat (map fst ps) @ p) > 10 * 1024 * 1024"
    and "TrimSpace (take 256 (concat (map fst ps) @ p)) \<noteq> ''''"
  shows "ParseJSONStreamInternal dec \<lparr>parts = pre @ ps @ (p, False) # post, final = fin\<rparr> =
     (case ParseJSONStreamInternal dec \<lparr>parts = pre @ post, final = fin\<rparr> of
        (res, ws, cbs) \<Rightarrow>
          (res,
           take (length (fst (snd (ParseJSONStreamInternal dec \<lparr>parts = pre, final = EOF\<rparr>)))) ws @
           [''Skipped overlong JSON line (> 10485760 bytes): '' @
              (if length (TrimSpace (take 256 (concat (map fst ps) @ p))) \<le> 100
               then TrimSpace (take 256 (concat (map fst ps) @ p))
               else take 100 (TrimSpace (take 256 (concat (map fst ps) @ p))) @ ''...'')] @
           drop (length (fst (snd (ParseJSONStreamInternal dec \<lparr>parts = pre, final = EOF\<rparr>)))) ws,
           cbs))"
proof -
  have long: "len (concat (map fst ps) @ p) > jsonLineMaxBytes"
    using assms(3) by (simp add: len_def jsonLineMaxBytes_def)
  have pv: "slice_to (concat (map fst ps) @ p) jsonLinePreviewBytes =
      take 256 (concat (map fst ps) @ p)"
    by (simp add: slice_to_def jsonLinePreviewBytes_def)
  have seen: "TrimSpace (slice_to (concat (map fst ps) @ p) jsonLinePreviewBytes) \<noteq> ''''"
    unfolding pv by (rule assms(4))
  have cut: "TruncateBytes t 100 = (if length t \<le> 100 then t else take 100 t @ ''...'')" for t
    by (simp add: TruncateBytes_def len_def slice_to_def)
  show ?thesis
    unfolding oversized_line_in_stream [OF assms(1,2) long seen] pv cut ..
qed

text \<open>
  An oversized line as \<open>ReadLine\<close> delivers it through a 64 KiB buffer: 160 full parts
  flagged \<open>isPrefix\<close> and a last one, 10551296 bytes of the letter \<open>a\<close> in all.
\<close>

lemma concat_replicate_replicate:
  "concat (replicate n (replicate m x)) = replicate (n * m) x"
  by (induction n) (simp_all add: replicate_add)

lemma TrimSpace_letters:
  assumes "0 < n"
  shows "TrimSpace (replicate n CHR ''a'') = replicate n CHR ''a''"
proof -
  from assms obtain m where n: "n = Suc m" by (cases n) auto
  have r: "rev (replicate n CHR ''a'') = replicate n CHR ''a''" by simp
  have k1: "TrimLeft whiteSpace (replicate n CHR ''a'') = replicate n CHR ''a''"
    unfolding n by (rule TrimLeft_keep) (simp add: spaceWidth_def whiteSpace_def)
  have k2: "TrimLeft (map rev whiteSpace) (replicate n CHR ''a'') = replicate n CHR ''a''"
    unfolding n by (rule TrimLeft_keep) (simp add: spaceWidth_def whiteSpace_def)
  show ?thesis
    by (simp only: TrimSpace_def k1 r k2)
qed

lemma TrimLeft_spaces: "TrimLeft whiteSpace (replicate n CHR 0x20) = []"
proof (induction n)
  case 0
  show ?case by simp
next
  case (Suc n)
  have "spaceWidth whiteSpace (CHR 0x20 # replicate n CHR 0x20) = 1"
    by (simp add: spaceWidth_def whiteSpace_def)
  then show ?case
    by (subst TrimLeft.simps) (simp add: Suc.IH)
qed

lemma TrimSpace_spaces: "TrimSpace (replicate n CHR 0x20) = []"
  by (simp add: TrimSpace_def TrimLeft_spaces)

lemma oversized_example_facts:
  "list_all snd (replicate 160 (replicate 65536 c, True))"
  "len (concat (map fst (replicate 160 (replicate 65536 c, True))) @ replicate 65536 c)
     > jsonLineMaxBytes"
  "slice_to (concat (map fst (replicate 160 (replicate 65536 c, True))) @
       replicate 65536 c) jsonLinePreviewBytes = replicate 256 c"
  "TruncateBytes (replicate 256 c) 100 = replicate 100 c @ ''...''"
  by (simp_all add: list_all_iff len_def jsonLineMaxBytes_def jsonLinePreviewBytes_def
        slice_to_def concat_replicate_replicate TruncateBytes_def)

lemma oversized_example_line:
  "length (concat (map fst (replicate 160 (replicate 65536 c, True))) @ replicate 65536 c)
     > 10 * 1024 * 1024"
  "take 256 (concat (map fst (replicate 160 (replicate 65536 c, True))) @ replicate 65536 c) =
     replicate 256 c"
  by (simp_all add: concat_replicate_replicate)

lemma oversized_example_warning:
  "TrimSpace (take 256 (concat (map fst (replicate 160 (replicate 65536 CHR ''a'', True))) @
       replicate 65536 CHR ''a'')) \<noteq> ''''"
  "(if length (TrimSpace (take 256 (concat (map fst (replicate 160 (replicate 65536 CHR ''a'', True))) @
                 replicate 65536 CHR ''a''))) \<le> 100
    then TrimSpace (take 256 (concat (map fst (replicate 160 (replicate 65536 CHR ''a'', True))) @
                 replicate 65536 CHR ''a''))
    else take 100 (TrimSpace (take 256 (concat (map fst (replicate 160 (replicate 65536 CHR ''a'', True))) @
                 replicate 65536 CHR ''a''))) @ ''...'') =
   replicate 100 CHR ''a'' @ ''...''"
  unfolding oversized_example_line(2)
  by (simp_all add: TrimSpace_letters)

theorem oversized_line_skipped_with_warning_witness:
  \<open>ParseJSONStreamInternal exampleDecoders
     \<lparr>parts = replicate 160 (replicate 65536 CHR ''a'', True) @
              (replicate 65536 CHR ''a'', False) #
              [(''{"type":"item.completed","item":{"type":"agent_message","text":"hello"}}'', False),
               (''{"type":"thread.completed","thread_id":"T1"}'', False)],
      final = EOF\<rparr> =
   ((''hello'', ''T1''),
    [''Skipped overlong JSON line (> 10485760 bytes): '' @ replicate 100 CHR ''a'' @ ''...''],
    [OnMessage, OnComplete]) \<and>
   ParseJSONStreamInternal exampleDecoders
     \<lparr>parts = [(''not json'', False)] @
              replicate 160 (replicate 65536 CHR ''a'', True) @
              (replicate 65536 CHR ''a'', False) #
              [(''{"type":"item.completed","item":{"type":"agent_message","text":"hello"}}'', False),
               (''{"type":"thread.completed","thread_id":"T1"}'', False)],
      final = EOF\<rparr> =
   ((''hello'', ''T1''),
    [''Failed to parse event: not json'',
     ''Skipped overlong JSON line (> 10485760 bytes): '' @ replicate 100 CHR ''a'' @ ''...''],
    [OnMessage, OnComplete])\<close>
proof -
  have none: "wholeLines []"
    by (simp add: wholeLines_def)
  have completion: \<open>ParseJSONStreamInternal exampleDecoders
     \<lparr>parts = [(''{"type":"item.completed","item":{"type":"agent_message","text":"hello"}}'', False),
               (''{"type":"thread.completed","thread_id":"T1"}'', False)],
      final = EOF\<rparr> =
     ((''hello'', ''T1''), [], [OnMessage, OnComplete])\<close>
    by code_simp
  have nothing: "ParseJSONStreamInternal exampleDecoders \<lparr>parts = [], final = EOF\<rparr> =
     (('''', ''''), [], [])"
    by code_simp
  have first: \<open>ParseJSONStreamInternal exampleDecoders
     \<lparr>parts = replicate 160 (replicate 65536 CHR ''a'', True) @
              (replicate 65536 CHR ''a'', False) #
              [(''{"type":"item.completed","item":{"type":"agent_message","text":"hello"}}'', False),
               (''{"type":"thread.completed","thread_id":"T1"}'', False)],
      final = EOF\<rparr> =
   ((''hello'', ''T1''),
    [''Skipped overlong JSON line (> 10485760 bytes): '' @ replicate 100 CHR ''a'' @ ''...''],
    [OnMessage, OnComplete])\<close>
    unfolding oversized_line_skipped_with_warning
      [OF none oversized_example_facts(1) oversized_example_line(1) oversized_example_warning(1),
       unfolded append_Nil]
      completion nothing oversized_example_warning(2)
    by simp
  have whole: "wholeLines [(''not json'', False)]"
    by (simp add: wholeLines_def)
  have without: \<open>ParseJSONStreamInternal exampleDecoders
     \<lparr>parts = [(''not json'', False)] @
              [(''{"type":"item.completed","item":{"type":"agent_message","text":"hello"}}'', False),
               (''{"type":"thread.completed","thread_id":"T1"}'', False)],
      final = EOF\<rparr> =
     ((''hello'', ''T1''), [''Failed to parse event: not json''], [OnMessage, OnComplete])\<close>
    by code_simp
  have before: "ParseJSONStreamInternal exampleDecoders
     \<lparr>parts = [(''not json'', False)], final = EOF\<rparr> =
     (('''', ''''), [''Failed to parse event: not json''], [])"
    by code_simp
  have second: \<open>ParseJSONStreamInternal exampleDecoders
     \<lparr>parts = [(''not json'', False)] @
              replicate 160 (replicate 65536 CHR ''a'', True) @
              (replicate 65536 CHR ''a'', False) #
              [(''{"type":"item.completed","item":{"type":"agent_message","text":"hello"}}'', False),
               (''{"type":"thread.completed","thread_id":"T1"}'', False)],
      final = EOF\<rparr> =
   ((''hello'', ''T1''),
    [''Failed to parse event: not json'',
     ''Skipped overlong JSON line (> 10485760 bytes): '' @ replicate 100 CHR ''a'' @ ''...''],
    [OnMessage, OnComplete])\<close>
    unfolding oversized_line_skipped_with_warning
      [OF whole oversized_example_facts(1) oversized_example_line(1) oversized_example_warning(1)]
      without before oversized_example_warning(2)
    by simp
  from first second show ?thesis by (rule conjI)
qed

subsection \<open>Oversized lines that get no warning, and the length of the warning\<close>

lemma prefixLoop_cut_off:
  "list_all snd ps \<Longrightarrow>
   snd (snd (fst (prefixLoop maxBytes previewBytes fin preview buf totalBytes tooLong ps))) = Some fin"
proof (induction ps arbitrary: preview buf totalBytes tooLong)
  case Nil
  show ?case by simp
next
  case (Cons pb ps)
  obtain part where pb: "pb = (part, True)" using Cons.prems by (cases pb) simp
  from Cons.prems have all: "list_all snd ps" by simp
  show ?case
    unfolding pb prefixLoop.simps Let_def
    by (simp add: Cons.IH [OF all])
qed

lemma streamLoop_cut_off:
  assumes "parts r = (part, True) # ps" and "list_all snd ps"
  shows "streamLoop dec (Some r) st = finishStream (final r) st"
  by (subst streamLoop.simps)
     (simp add: readLineWithLimit_def Let_def case_prod_beta assms(1)
        prefixLoop_cut_off [OF assms(2)] jsonLineMaxBytes_def finishStream_def
        split: read_error.splits)

lemma streamLoop_oversized_line:
  assumes "list_all snd ps"
    and "len (concat (map fst ps) @ p) > jsonLineMaxBytes"
    and "slice_to (concat (map fst ps) @ p) jsonLinePreviewBytes = pv"
  shows "streamLoop dec (Some \<lparr>parts = ps @ (p, False) # rest, final = e\<rparr>) st =
     streamLoop dec (Some \<lparr>parts = rest, final = e\<rparr>) (handleLine dec pv True st)"
  using streamLoop_complete_line
          [OF assms(1), of "\<lparr>parts = ps @ (p, False) # rest, final = e\<rparr>" p rest dec st]
        assms(2,3)
  by simp

lemma blank_line_state:
  "TrimSpace line = '''' \<Longrightarrow> handleLine dec line tooLong st = st"
  by (simp add: handleLine_def)

text \<open>
  C7 as stated fails. For the line of 10551296 letters \<open>a\<close> the only warning is 150 bytes
  long (the fixed text, the first 100 bytes of the preview and \<open>...\<close>), so it does not
  include the 256-byte preview. A last line of the same letters that the input ends
  without completing (161 full parts, then the end of the input) is dropped without a
  warning, and so is a line of 10551296 spaces.
\<close>

theorem oversized_line_warning_counterexample:
  "ParseJSONStreamInternal exampleDecoders
     \<lparr>parts = replicate 160 (replicate 65536 CHR ''a'', True) @
              [(replicate 65536 CHR ''a'', False)],
      final = EOF\<rparr> =
   (('''', ''''),
    [''Skipped overlong JSON line (> 10485760 bytes): '' @ replicate 100 CHR ''a'' @ ''...''],
    []) \<and>
   length (''Skipped overlong JSON line (> 10485760 bytes): '' @ replicate 100 CHR ''a'' @ ''...'') = 150 \<and>
   ParseJSONStreamInternal exampleDecoders
     \<lparr>parts = (replicate 65536 CHR ''a'', True) # replicate 160 (replicate 65536 CHR ''a'', True),
      final = EOF\<rparr> =
   (('''', ''''), [], []) \<and>
   ParseJSONStreamInternal exampleDecoders
     \<lparr>parts = replicate 160 (replicate 65536 CHR 0x20, True) @
              [(replicate 65536 CHR 0x20, False)],
      final = EOF\<rparr> =
   (('''', ''''), [], [])"
proof (intro conjI)
  have init: "selectMessage initialState = ''''" "threadID initialState = ''''"
    "warnings initialState = []" "callbacks initialState = []"
    by (simp_all add: initialState_def selectMessage_def)
  have w: "handleLine exampleDecoders (replicate 256 CHR ''a'') True initialState =
      earlier 1 [] (warnFn (''Skipped overlong JSON line (> 10485760 bytes): '' @
                              replicate 100 CHR ''a'' @ ''...'') initialState)"
    using oversized_line_state [of "replicate 256 CHR ''a''" exampleDecoders initialState]
    by (simp add: TrimSpace_letters oversized_example_facts(4))
  show "ParseJSONStreamInternal exampleDecoders
     \<lparr>parts = replicate 160 (replicate 65536 CHR ''a'', True) @
              [(replicate 65536 CHR ''a'', False)],
      final = EOF\<rparr> =
   (('''', ''''),
    [''Skipped overlong JSON line (> 10485760 bytes): '' @ replicate 100 CHR ''a'' @ ''...''],
    [])"
    unfolding ParseJSONStreamInternal_def
      streamLoop_oversized_line
        [OF oversized_example_facts(1) oversized_example_facts(2) oversized_example_facts(3)]
      w
    by (simp add: streamLoop_end finishStream_def init)
  show "length (''Skipped overlong JSON line (> 10485760 bytes): '' @ replicate 100 CHR ''a'' @ ''...'') = 150"
    by simp
  show "ParseJSONStreamInternal exampleDecoders
     \<lparr>parts = (replicate 65536 CHR ''a'', True) # replicate 160 (replicate 65536 CHR ''a'', True),
      final = EOF\<rparr> =
   (('''', ''''), [], [])"
    unfolding ParseJSONStreamInternal_def
    by (subst streamLoop_cut_off
          [of _ "replicate 65536 CHR ''a''" "replicate 160 (replicate 65536 CHR ''a'', True)"])
       (simp_all add: oversized_example_facts(1) finishStream_def init)
  show "ParseJSONStreamInternal exampleDecoders
     \<lparr>parts = replicate 160 (replicate 65536 CHR 0x20, True) @
              [(replicate 65536 CHR 0x20, False)],
      final = EOF\<rparr> =
   (('''', ''''), [], [])"
    unfolding ParseJSONStreamInternal_def
      streamLoop_oversized_line
        [OF oversized_example_facts(1) oversized_example_facts(2) oversized_example_facts(3)]
      blank_line_state [OF TrimSpace_spaces]
    by (simp add: streamLoop_end finishStream_def init)
qed

subsection \<open>Log file lifecycle of one run\<close>

lemma eprint_fields [simp]:
  "files (eprint s w) = files w" "loggerPtr (eprint s w) = loggerPtr w"
  "stderr (eprint s w) = stderr w @ [s]"
  by (simp_all add: eprint_def)

lemma foldl_eprint [simp]:
  "files (foldl (\<lambda>w entry. eprint entry w) w es) = files w"
  "stderr (foldl (\<lambda>w entry. eprint entry w) w es) = stderr w @ es"
  by (induction es arbitrary: w) simp_all

lemma ExtractRecentErrors_length: "length (ExtractRecentErrors l 10) \<le> 10"
  by (simp add: ExtractRecentErrors_def)

text \<open>
  C8 (amended). Closing the logger keeps the log file, but the run ends by removing it
  whatever the exit code. When the active logger is still set at exit and the unlink
  succeeds, the log file no longer exists after the run; when the exit code is not zero and
  there are recent errors, stderr receives the header, the recent-error lines (ten at most)
  and then the path of the log file marked \<open>(deleted)\<close>.
\<close>

theorem log_file_removed_at_exit:
  assumes "fn (scheduleStartupCleanup (w0\<lparr>files := insert (path l) (files w0), loggerPtr := Some l\<rparr>))
             = (exitCode, w2)"
    and "loggerPtr (runCleanupHook w2) = Some lg"
  shows "fst (runWithLoggerAndCleanup (Inr l) scheduleStartupCleanup fn runCleanupHook None True w0)
           = exitCode \<and>
         path lg \<notin> files (snd (runWithLoggerAndCleanup (Inr l) scheduleStartupCleanup fn
                                   runCleanupHook None True w0)) \<and>
         stderr (snd (runWithLoggerAndCleanup (Inr l) scheduleStartupCleanup fn
                                   runCleanupHook None True w0)) =
           stderr (runCleanupHook w2) @
           (if exitCode \<noteq> 0 \<and> ExtractRecentErrors lg 10 \<noteq> []
            then (CHR 0x0A # ''=== Recent Errors ==='') # ExtractRecentErrors lg 10 @
                 [''Log file: '' @ path lg @ '' (deleted)'']
            else []) \<and>
         length (ExtractRecentErrors lg 10) \<le> 10"
  using assms
  by (simp add: runWithLoggerAndCleanup_def deferredCleanup_def closeLogger_def Let_def
        RemoveLogFile_def ExtractRecentErrors_length)

theorem log_file_removed_at_exit_witness:
  "runWithLoggerAndCleanup (Inr \<lparr>path = ''/tmp/codeagent-wrapper-42.log'', entries = []\<rparr>)
     id failingRun id None True \<lparr>files = {}, stderr = [], loggerPtr = None\<rparr> =
   (1, \<lparr>files = {},
        stderr = [CHR 0x0A # ''=== Recent Errors ==='', ''boom'',
                  ''Log file: /tmp/codeagent-wrapper-42.log (deleted)''],
        loggerPtr = None\<rparr>)"
proof -
  let ?l = "\<lparr>path = ''/tmp/codeagent-wrapper-42.log'', entries = []\<rparr>"
  let ?lg = "\<lparr>path = ''/tmp/codeagent-wrapper-42.log'', entries = [''boom'']\<rparr>"
  let ?w0 = "\<lparr>files = {}, stderr = [], loggerPtr = None\<rparr>"
  let ?w2 = "\<lparr>files = {''/tmp/codeagent-wrapper-42.log''}, stderr = [], loggerPtr = Some ?lg\<rparr>"
  let ?res = "runWithLoggerAndCleanup (Inr ?l) id failingRun id None True ?w0"
  have h1: "failingRun (id (?w0\<lparr>files := insert (path ?l) (files ?w0), loggerPtr := Some ?l\<rparr>)) = (1, ?w2)"
    by (simp add: failingRun_def)
  have h2: "loggerPtr (id ?w2) = Some ?lg" by simp
  from log_file_removed_at_exit
         [where fn = failingRun and scheduleStartupCleanup = id and runCleanupHook = id
            and ?w0.0 = ?w0 and l = ?l and ?w2.0 = ?w2 and lg = ?lg and exitCode = 1, OF h1 h2]
  have "fst ?res = 1"
    and "stderr (snd ?res) = [CHR 0x0A # ''=== Recent Errors ==='', ''boom'',
                  ''Log file: /tmp/codeagent-wrapper-42.log (deleted)'']"
    and "path ?lg \<notin> files (snd ?res)"
    by (simp_all add: ExtractRecentErrors_def)
  moreover have "files (snd ?res) \<subseteq> {''/tmp/codeagent-wrapper-42.log''}"
    and "loggerPtr (snd ?res) = None"
    by (simp_all add: runWithLoggerAndCleanup_def deferredCleanup_def closeLogger_def Let_def
          RemoveLogFile_def failingRun_def ExtractRecentErrors_def)
  ultimately show ?thesis
    by (cases ?res; cases "snd ?res") auto
qed

text \<open>
  C8 as stated fails: after a run that exits with code 1 the log file is gone, and stderr
  says so.
\<close>

theorem log_file_kept_counterexample:
  "fst (runWithLoggerAndCleanup (Inr \<lparr>path = ''/tmp/codeagent-wrapper-42.log'', entries = []\<rparr>)
          id failingRun id None True \<lparr>files = {}, stderr = [], loggerPtr = None\<rparr>) = 1 \<and>
   ''/tmp/codeagent-wrapper-42.log'' \<notin>
     files (snd (runWithLoggerAndCleanup (Inr \<lparr>path = ''/tmp/codeagent-wrapper-42.log'', entries = []\<rparr>)
          id failingRun id None True \<lparr>files = {}, stderr = [], loggerPtr = None\<rparr>)) \<and>
   last (stderr (snd (runWithLoggerAndCleanup (Inr \<lparr>path = ''/tmp/codeagent-wrapper-42.log'', entries = []\<rparr>)
          id failingRun id None True \<lparr>files = {}, stderr = [], loggerPtr = None\<rparr>))) =
     ''Log file: /tmp/codeagent-wrapper-42.log (deleted)''"
  by (simp add: runWithLoggerAndCleanup_def deferredCleanup_def closeLogger_def Let_def
        RemoveLogFile_def failingRun_def ExtractRecentErrors_def)

subsection \<open>Task-block parser: where the prompt file comes from\<close>



lemma TrimSpace_Nil [simp]: "TrimSpace [] = []"
  by (simp add: TrimSpace_def)






subsection \<open>Log cleanup: unsafe files\<close>

lemma cleanupCandidate_Unlinked:
  "set (Unlinked (cleanupCandidate env stats logPath)) \<subseteq>
     set (Unlinked stats) \<union> {p. p = logPath \<and> isUnsafeFile (filesystem env) p (tempDir env) = None}"
  by (auto simp: cleanupCandidate_def keepFile_def Let_def split: option.splits)

lemma cleanupCandidate_DeletedFiles:
  "set (DeletedFiles (cleanupCandidate env stats logPath)) \<subseteq>
     set (DeletedFiles stats) \<union> {p. p = logPath \<and> isUnsafeFile (filesystem env) p (tempDir env) = None}"
  by (auto simp: cleanupCandidate_def keepFile_def Let_def split: option.splits)

lemma cleanupCandidate_KeptFiles:
  "set (KeptFiles stats) \<subseteq> set (KeptFiles (cleanupCandidate env stats logPath))"
  "isUnsafeFile (filesystem env) logPath (tempDir env) \<noteq> None \<Longrightarrow>
     logPath \<in> set (KeptFiles (cleanupCandidate env stats logPath))"
  by (auto simp: cleanupCandidate_def keepFile_def Let_def split: option.splits)

lemma foldl_cleanup_safe:
  assumes "\<forall>p \<in> set (Unlinked stats) \<union> set (DeletedFiles stats).
             isUnsafeFile (filesystem env) p (tempDir env) = None"
  shows "\<forall>p \<in> set (Unlinked (foldl (cleanupCandidate env) stats matches)) \<union>
               set (DeletedFiles (foldl (cleanupCandidate env) stats matches)).
           isUnsafeFile (filesystem env) p (tempDir env) = None"
  using assms
proof (induction matches arbitrary: stats)
  case Nil
  then show ?case by simp
next
  case (Cons m matches)
  have "\<forall>p \<in> set (Unlinked (cleanupCandidate env stats m)) \<union>
               set (DeletedFiles (cleanupCandidate env stats m)).
          isUnsafeFile (filesystem env) p (tempDir env) = None"
    using Cons.prems cleanupCandidate_Unlinked [of env stats m]
      cleanupCandidate_DeletedFiles [of env stats m] by blast
  from Cons.IH [OF this] show ?case by simp
qed

lemma foldl_cleanup_kept_mono:
  "set (KeptFiles stats) \<subseteq> set (KeptFiles (foldl (cleanupCandidate env) stats matches))"
proof (induction matches arbitrary: stats)
  case Nil
  show ?case by simp
next
  case (Cons m matches)
  from cleanupCandidate_KeptFiles(1) [of stats env m] Cons.IH [of "cleanupCandidate env stats m"]
  show ?case by auto
qed

lemma foldl_cleanup_kept:
  assumes "p \<in> set matches" and "isUnsafeFile (filesystem env) p (tempDir env) \<noteq> None"
  shows "p \<in> set (KeptFiles (foldl (cleanupCandidate env) stats matches))"
  using assms(1)
proof (induction matches arbitrary: stats)
  case Nil
  then show ?case by simp
next
  case (Cons m matches)
  show ?case
  proof (cases "p = m")
    case True
    with cleanupCandidate_KeptFiles(2) [OF assms(2), of stats]
      foldl_cleanup_kept_mono [of "cleanupCandidate env stats m" env matches]
    show ?thesis by auto
  next
    case False
    with Cons.prems have "p \<in> set matches" by simp
    from Cons.IH [OF this] show ?thesis by simp
  qed
qed

text \<open>
  C2. A candidate that is a symlink, or whose resolved path lies outside the temp
  directory, is reported unsafe by the unsafe-file check; and cleanup never hands an unsafe
  file to the unlink function: it is not among the deleted files, and when it was among the
  candidates it is among the kept ones.
\<close>

theorem unsafe_files_are_kept:
  "(Lstat (filesystem env) p = Inr info \<and>
      (IsSymlink info \<or>
       (EvalSymlinks (filesystem env) p = Inr resolved \<and> \<not> pathWithin (tempDir env) resolved))
    \<longrightarrow> isUnsafeFile (filesystem env) p (tempDir env) \<noteq> None) \<and>
   (isUnsafeFile (filesystem env) p (tempDir env) \<noteq> None \<longrightarrow>
      p \<notin> set (Unlinked (cleanupOldLogs env globbed)) \<and>
      p \<notin> set (DeletedFiles (cleanupOldLogs env globbed)) \<and>
      (\<forall>matches. globbed = Inr matches \<and> p \<in> set matches \<longrightarrow>
         p \<in> set (KeptFiles (cleanupOldLogs env globbed))))"
proof (intro conjI impI)
  assume "Lstat (filesystem env) p = Inr info \<and>
      (IsSymlink info \<or>
       (EvalSymlinks (filesystem env) p = Inr resolved \<and> \<not> pathWithin (tempDir env) resolved))"
  then show "isUnsafeFile (filesystem env) p (tempDir env) \<noteq> None"
    by (auto simp: isUnsafeFile_def)
next
  assume unsafe: "isUnsafeFile (filesystem env) p (tempDir env) \<noteq> None"
  have safe: "\<forall>q \<in> set (Unlinked (cleanupOldLogs env globbed)) \<union>
                   set (DeletedFiles (cleanupOldLogs env globbed)).
               isUnsafeFile (filesystem env) q (tempDir env) = None"
  proof (cases globbed)
    case (Inl err)
    then show ?thesis by (simp add: cleanupOldLogs_def emptyStats_def)
  next
    case (Inr matches)
    have "\<forall>q \<in> set (Unlinked emptyStats) \<union> set (DeletedFiles emptyStats).
            isUnsafeFile (filesystem env) q (tempDir env) = None"
      by (simp add: emptyStats_def)
    from foldl_cleanup_safe [OF this] Inr show ?thesis by (simp add: cleanupOldLogs_def)
  qed
  from safe unsafe show "p \<notin> set (Unlinked (cleanupOldLogs env globbed))" by auto
  from safe unsafe show "p \<notin> set (DeletedFiles (cleanupOldLogs env globbed))" by auto
  show "\<forall>matches. globbed = Inr matches \<and> p \<in> set matches \<longrightarrow>
         p \<in> set (KeptFiles (cleanupOldLogs env globbed))"
    using foldl_cleanup_kept [OF _ unsafe] by (auto simp: cleanupOldLogs_def)
qed

theorem unsafe_files_are_kept_witness:
  "isUnsafeFile (filesystem exampleCleanup) ''/tmp/codeagent-wrapper-1.log''
     (tempDir exampleCleanup) \<noteq> None \<and>
   ''/tmp/codeagent-wrapper-1.log'' \<notin> set (Unlinked (cleanupOldLogs exampleCleanup
      (Inr [''/tmp/codeagent-wrapper-1.log'', ''/tmp/codeagent-wrapper-9.log'',
            ''/tmp/codeagent-wrapper-7.log'']))) \<and>
   ''/tmp/codeagent-wrapper-1.log'' \<in> set (KeptFiles (cleanupOldLogs exampleCleanup
      (Inr [''/tmp/codeagent-wrapper-1.log'', ''/tmp/codeagent-wrapper-9.log'',
            ''/tmp/codeagent-wrapper-7.log'']))) \<and>
   isUnsafeFile (filesystem exampleCleanup) ''/tmp/codeagent-wrapper-9.log''
     (tempDir exampleCleanup) \<noteq> None \<and>
   ''/tmp/codeagent-wrapper-9.log'' \<notin> set (Unlinked (cleanupOldLogs exampleCleanup
      (Inr [''/tmp/codeagent-wrapper-1.log'', ''/tmp/codeagent-wrapper-9.log'',
            ''/tmp/codeagent-wrapper-7.log'']))) \<and>
   ''/tmp/codeagent-wrapper-9.log'' \<in> set (KeptFiles (cleanupOldLogs exampleCleanup
      (Inr [''/tmp/codeagent-wrapper-1.log'', ''/tmp/codeagent-wrapper-9.log'',
            ''/tmp/codeagent-wrapper-7.log''])))"
proof -
  let ?p = "''/tmp/codeagent-wrapper-1.log''"
  let ?q = "''/tmp/codeagent-wrapper-9.log''"
  let ?ms = "[''/tmp/codeagent-wrapper-1.log'', ''/tmp/codeagent-wrapper-9.log'',
              ''/tmp/codeagent-wrapper-7.log'']"
  have h1: "Lstat (filesystem exampleCleanup) ?p = Inr \<lparr>ModTime = 0, IsSymlink = True\<rparr> \<and>
      (IsSymlink \<lparr>ModTime = 0, IsSymlink = True\<rparr> \<or>
       (EvalSymlinks (filesystem exampleCleanup) ?p = Inr [] \<and>
        \<not> pathWithin (tempDir exampleCleanup) []))"
    by (simp add: exampleCleanup_def exampleFiles_def)
  have h2: "Lstat (filesystem exampleCleanup) ?q = Inr \<lparr>ModTime = 0, IsSymlink = False\<rparr> \<and>
      (IsSymlink \<lparr>ModTime = 0, IsSymlink = False\<rparr> \<or>
       (EvalSymlinks (filesystem exampleCleanup) ?q = Inr [''etc'', ''passwd''] \<and>
        \<not> pathWithin (tempDir exampleCleanup) [''etc'', ''passwd'']))"
    by (simp add: exampleCleanup_def exampleFiles_def pathWithin_def)
  from unsafe_files_are_kept
         [of exampleCleanup ?p "\<lparr>ModTime = 0, IsSymlink = True\<rparr>" "[]" "Inr ?ms"] h1
       unsafe_files_are_kept
         [of exampleCleanup ?q "\<lparr>ModTime = 0, IsSymlink = False\<rparr>" "[''etc'', ''passwd'']" "Inr ?ms"] h2
  show ?thesis by simp
qed

subsection \<open>Log cleanup: the liveness decision\<close>

lemma cleanupCandidate_Unlinked_reclaimable:
  "set (Unlinked (cleanupCandidate env stats logPath)) \<subseteq>
     set (Unlinked stats) \<union>
     {p. p = logPath \<and> (\<exists>pid. parsePID env p = Some pid \<and> reclaimable env p pid)}"
  by (auto simp: cleanupCandidate_def keepFile_def reclaimable_def Let_def split: option.splits)

lemma foldl_cleanup_reclaimable:
  assumes "\<forall>p \<in> set (Unlinked stats). \<exists>pid. parsePID env p = Some pid \<and> reclaimable env p pid"
  shows "\<forall>p \<in> set (Unlinked (foldl (cleanupCandidate env) stats matches)).
           \<exists>pid. parsePID env p = Some pid \<and> reclaimable env p pid"
  using assms
proof (induction matches arbitrary: stats)
  case Nil
  then show ?case by simp
next
  case (Cons m matches)
  have "\<forall>p \<in> set (Unlinked (cleanupCandidate env stats m)).
          \<exists>pid. parsePID env p = Some pid \<and> reclaimable env p pid"
    using Cons.prems cleanupCandidate_Unlinked_reclaimable [of env stats m] by blast
  from Cons.IH [OF this] show ?case by simp
qed

lemma cleanupCandidate_keeps:
  "parsePID env logPath = Some pid \<Longrightarrow> \<not> reclaimable env logPath pid \<Longrightarrow>
   logPath \<in> set (KeptFiles (cleanupCandidate env stats logPath))"
  by (simp add: cleanupCandidate_def keepFile_def reclaimable_def Let_def)

lemma cleanupCandidate_unlinks:
  "parsePID env logPath = Some pid \<Longrightarrow> reclaimable env logPath pid \<Longrightarrow>
   isUnsafeFile (filesystem env) logPath (tempDir env) = None \<Longrightarrow>
   logPath \<in> set (Unlinked (cleanupCandidate env stats logPath))"
  by (simp add: cleanupCandidate_def keepFile_def reclaimable_def Let_def split: option.splits)

lemma cleanupCandidate_Unlinked_mono:
  "set (Unlinked stats) \<subseteq> set (Unlinked (cleanupCandidate env stats logPath))"
  by (auto simp: cleanupCandidate_def keepFile_def Let_def split: option.splits)

lemma foldl_cleanup_Unlinked_mono:
  "set (Unlinked stats) \<subseteq> set (Unlinked (foldl (cleanupCandidate env) stats matches))"
proof (induction matches arbitrary: stats)
  case Nil
  show ?case by simp
next
  case (Cons m matches)
  from cleanupCandidate_Unlinked_mono [of stats env m] Cons.IH [of "cleanupCandidate env stats m"]
  show ?case by auto
qed

lemma foldl_cleanup_keeps:
  assumes "p \<in> set matches" and "parsePID env p = Some pid" and "\<not> reclaimable env p pid"
  shows "p \<in> set (KeptFiles (foldl (cleanupCandidate env) stats matches))"
  using assms(1)
proof (induction matches arbitrary: stats)
  case Nil
  then show ?case by simp
next
  case (Cons m matches)
  show ?case
  proof (cases "p = m")
    case True
    with cleanupCandidate_keeps [OF assms(2,3), of stats]
      foldl_cleanup_kept_mono [of "cleanupCandidate env stats m" env matches]
    show ?thesis by auto
  next
    case False
    with Cons.prems have "p \<in> set matches" by simp
    from Cons.IH [OF this] show ?thesis by simp
  qed
qed

lemma foldl_cleanup_unlinks:
  assumes "p \<in> set matches" and "parsePID env p = Some pid" and "reclaimable env p pid"
    and "isUnsafeFile (filesystem env) p (tempDir env) = None"
  shows "p \<in> set (Unlinked (foldl (cleanupCandidate env) stats matches))"
  using assms(1)
proof (induction matches arbitrary: stats)
  case Nil
  then show ?case by simp
next
  case (Cons m matches)
  show ?case
  proof (cases "p = m")
    case True
    with cleanupCandidate_unlinks [OF assms(2,3,4), of stats]
      foldl_cleanup_Unlinked_mono [of "cleanupCandidate env stats m" env matches]
    show ?thesis by auto
  next
    case False
    with Cons.prems have "p \<in> set matches" by simp
    from Cons.IH [OF this] show ?thesis by simp
  qed
qed

lemma not_reclaimable_kept:
  assumes "p \<in> set matches" and "parsePID env p = Some pid" and "\<not> reclaimable env p pid"
  shows "keptByCleanup env matches p"
proof -
  have "\<forall>q \<in> set (Unlinked emptyStats). \<exists>pid. parsePID env q = Some pid \<and> reclaimable env q pid"
    by (simp add: emptyStats_def)
  from foldl_cleanup_reclaimable [OF this, of matches] assms(2,3)
  have "p \<notin> set (Unlinked (foldl (cleanupCandidate env) emptyStats matches))" by auto
  with foldl_cleanup_keeps [OF assms, of emptyStats]
  show ?thesis by (simp add: keptByCleanup_def cleanupOldLogs_def)
qed

lemma isProcessRunning_cases:
  "pidToInt32 pid = Some pid32 \<Longrightarrow>
   isProcessRunning os pid =
     (case PidExists os pid32 of
        (exists, None) \<Rightarrow> exists
      | (exists, Some ErrorProcessNotRunning) \<Rightarrow> False
      | (exists, Some (ProcError msg)) \<Rightarrow> True)"
  by (simp add: isProcessRunning_def)

text \<open>
  C3 (amended). For a candidate log file with embedded PID \<open>pid\<close>: (a) when the PID is
  not reported as running, the file is reclaimable; (b) when the PID is running, the stat
  succeeds, the start time is known and the file's mtime is older than it, the file is
  reclaimable. (c) An existence check that fails with \<open>ErrorProcessNotRunning\<close> reports
  the PID as not running, and one that fails with any other error counts it as running; a
  failure to read the start time leaves the start time unknown; for a running PID a stat
  failure keeps the file, and an unknown start time keeps it while the file is no older
  than the staleness bound and makes it reclaimable once it is older. A reclaimable file
  that passes the unsafe-file check is handed to the unlink function; a kept file is not.
\<close>

theorem liveness_decision:
  assumes "parsePID env p = Some pid" and "p \<in> set matches"
  shows "(\<not> isProcessRunning (processes env) pid \<longrightarrow> reclaimable env p pid) \<and>
   (isProcessRunning (processes env) pid \<and> Lstat (filesystem env) p = Inr info \<and>
      getProcessStartTime (processes env) pid \<noteq> zeroTime \<and>
      ModTime info < getProcessStartTime (processes env) pid
    \<longrightarrow> reclaimable env p pid) \<and>
   (pidToInt32 pid = Some pid32 \<and>
      PidExists (processes env) pid32 = (exists, Some ErrorProcessNotRunning)
    \<longrightarrow> \<not> isProcessRunning (processes env) pid) \<and>
   (pidToInt32 pid = Some pid32 \<and> PidExists (processes env) pid32 = (exists, Some (ProcError msg))
    \<longrightarrow> isProcessRunning (processes env) pid) \<and>
   (pidToInt32 pid = Some pid32 \<and>
      (NewProcess (processes env) pid32 = Some perr \<or>
       snd (CreateTime (processes env) pid32) = Some perr)
    \<longrightarrow> getProcessStartTime (processes env) pid = zeroTime) \<and>
   (isProcessRunning (processes env) pid \<and> Lstat (filesystem env) p = Inl err
    \<longrightarrow> \<not> reclaimable env p pid \<and> keptByCleanup env matches p) \<and>
   (isProcessRunning (processes env) pid \<and> Lstat (filesystem env) p = Inr info \<and>
      getProcessStartTime (processes env) pid = zeroTime \<and>
      now env - ModTime info \<le> staleAfter env
    \<longrightarrow> \<not> reclaimable env p pid \<and> keptByCleanup env matches p) \<and>
   (isProcessRunning (processes env) pid \<and> Lstat (filesystem env) p = Inr info \<and>
      getProcessStartTime (processes env) pid = zeroTime \<and>
      now env - ModTime info > staleAfter env
    \<longrightarrow> reclaimable env p pid) \<and>
   (reclaimable env p pid \<and> isUnsafeFile (filesystem env) p (tempDir env) = None
    \<longrightarrow> p \<in> set (Unlinked (cleanupOldLogs env (Inr matches))))"
proof (intro conjI impI)
  show "reclaimable env p pid" if "\<not> isProcessRunning (processes env) pid"
    using that by (simp add: reclaimable_def logIsReclaimable_def)
  show "reclaimable env p pid"
    if "isProcessRunning (processes env) pid \<and> Lstat (filesystem env) p = Inr info \<and>
        getProcessStartTime (processes env) pid \<noteq> zeroTime \<and>
        ModTime info < getProcessStartTime (processes env) pid"
    using that by (simp add: reclaimable_def logIsReclaimable_def isPIDReused_def Let_def)
  show "\<not> isProcessRunning (processes env) pid"
    if "pidToInt32 pid = Some pid32 \<and>
        PidExists (processes env) pid32 = (exists, Some ErrorProcessNotRunning)"
    using that by (simp add: isProcessRunning_cases)
  show "isProcessRunning (processes env) pid"
    if "pidToInt32 pid = Some pid32 \<and> PidExists (processes env) pid32 = (exists, Some (ProcError msg))"
    using that by (simp add: isProcessRunning_cases)
  show "getProcessStartTime (processes env) pid = zeroTime"
    if "pidToInt32 pid = Some pid32 \<and>
        (NewProcess (processes env) pid32 = Some perr \<or>
         snd (CreateTime (processes env) pid32) = Some perr)"
    using that by (auto simp: getProcessStartTime_def split: option.splits prod.splits)
  show "reclaimable env p pid"
    if "isProcessRunning (processes env) pid \<and> Lstat (filesystem env) p = Inr info \<and>
        getProcessStartTime (processes env) pid = zeroTime \<and>
        now env - ModTime info > staleAfter env"
    using that by (simp add: reclaimable_def logIsReclaimable_def isPIDReused_def Let_def)
  show "p \<in> set (Unlinked (cleanupOldLogs env (Inr matches)))"
    if "reclaimable env p pid \<and> isUnsafeFile (filesystem env) p (tempDir env) = None"
    using that foldl_cleanup_unlinks [OF assms(2,1), of emptyStats]
    by (simp add: cleanupOldLogs_def)
next
  assume h: "isProcessRunning (processes env) pid \<and> Lstat (filesystem env) p = Inl err"
  then show n: "\<not> reclaimable env p pid"
    by (simp add: reclaimable_def logIsReclaimable_def isPIDReused_def)
  from not_reclaimable_kept [OF assms(2,1) n] show "keptByCleanup env matches p" .
next
  assume h: "isProcessRunning (processes env) pid \<and> Lstat (filesystem env) p = Inr info \<and>
      getProcessStartTime (processes env) pid = zeroTime \<and>
      now env - ModTime info \<le> staleAfter env"
  then show n: "\<not> reclaimable env p pid"
    by (simp add: reclaimable_def logIsReclaimable_def isPIDReused_def Let_def)
  from not_reclaimable_kept [OF assms(2,1) n] show "keptByCleanup env matches p" .
qed

lemma cleanupScene_fields [simp]:
  "staleAfter (cleanupScene os fs) = 604800000000000"
  "now (cleanupScene os fs) = 1700000000000000000"
  "filesystem (cleanupScene os fs) = fs"
  "processes (cleanupScene os fs) = os"
  "tempDir (cleanupScene os fs) = [''tmp'']"
  "parsePID (cleanupScene os fs) ''/tmp/codeagent-wrapper-1234.log'' = Some 1234"
  by (simp_all add: cleanupScene_def)

text \<open>
  The candidate \<^verbatim>\<open>/tmp/codeagent-wrapper-1234.log\<close>, last written two hours ago or
  eight days ago, or not to be inspected; its process gone, started half an hour ago, or
  hidden behind a permission error.
\<close>

theorem liveness_decision_witness:
  "reclaimable (cleanupScene noProcesses recentLogFiles) ''/tmp/codeagent-wrapper-1234.log'' 1234 \<and>
   ''/tmp/codeagent-wrapper-1234.log'' \<in>
     set (Unlinked (cleanupOldLogs (cleanupScene noProcesses recentLogFiles)
                      (Inr [''/tmp/codeagent-wrapper-1234.log'']))) \<and>
   reclaimable (cleanupScene youngProcess recentLogFiles) ''/tmp/codeagent-wrapper-1234.log'' 1234 \<and>
   \<not> isProcessRunning vanishedProcesses 1234 \<and>
   isProcessRunning deniedProcesses 1234 \<and>
   getProcessStartTime deniedProcesses 1234 = zeroTime \<and>
   keptByCleanup (cleanupScene youngProcess unreadableFiles)
     [''/tmp/codeagent-wrapper-1234.log''] ''/tmp/codeagent-wrapper-1234.log'' \<and>
   keptByCleanup (cleanupScene deniedProcesses recentLogFiles)
     [''/tmp/codeagent-wrapper-1234.log''] ''/tmp/codeagent-wrapper-1234.log'' \<and>
   reclaimable (cleanupScene deniedProcesses oldLogFiles) ''/tmp/codeagent-wrapper-1234.log'' 1234"
proof -
  let ?p = "''/tmp/codeagent-wrapper-1234.log''"
  let ?recent = "\<lparr>ModTime = 1700000000000000000 - 7200000000000, IsSymlink = False\<rparr>"
  let ?old = "\<lparr>ModTime = 1700000000000000000 - 691200000000000, IsSymlink = False\<rparr>"
  have mem: "?p \<in> set [?p]" by simp
  have pid32: "pidToInt32 1234 = Some 1234" by (simp add: pidToInt32_def)
  have gone: "\<not> isProcessRunning noProcesses 1234"
    by (simp add: isProcessRunning_def noProcesses_def pidToInt32_def)
  have safe: "isUnsafeFile recentLogFiles ?p [''tmp''] = None"
    by (simp add: isUnsafeFile_def recentLogFiles_def pathWithin_def)
  have run: "isProcessRunning youngProcess 1234"
    by (simp add: isProcessRunning_def youngProcess_def pidToInt32_def)
  have start: "getProcessStartTime youngProcess 1234 = 1700000000000000000 - 1800000000000"
    by (simp add: getProcessStartTime_def youngProcess_def pidToInt32_def UnixMilli_def)
  have recent: "Lstat recentLogFiles ?p = Inr ?recent" by (simp add: recentLogFiles_def)
  have old: "Lstat oldLogFiles ?p = Inr ?old" by (simp add: oldLogFiles_def)
  have unreadable: "Lstat unreadableFiles ?p = Inl ''stat failed''" by (simp add: unreadableFiles_def)
  have vanished: "PidExists vanishedProcesses 1234 = (False, Some ErrorProcessNotRunning)"
    by (simp add: vanishedProcesses_def)
  have denied: "PidExists deniedProcesses 1234 = (False, Some (ProcError ''permission denied''))"
    "NewProcess deniedProcesses 1234 = Some (ProcError ''permission denied'')"
    by (simp_all add: deniedProcesses_def)
  from liveness_decision
         [of "cleanupScene noProcesses recentLogFiles" ?p 1234 "[?p]",
          OF cleanupScene_fields(6) mem]
       gone safe
  have 1: "reclaimable (cleanupScene noProcesses recentLogFiles) ?p 1234 \<and>
      ?p \<in> set (Unlinked (cleanupOldLogs (cleanupScene noProcesses recentLogFiles) (Inr [?p])))"
    by simp
  from liveness_decision
         [of "cleanupScene youngProcess recentLogFiles" ?p 1234 "[?p]" ?recent,
          OF cleanupScene_fields(6) mem]
       run start recent
  have 2: "reclaimable (cleanupScene youngProcess recentLogFiles) ?p 1234"
    by (simp add: zeroTime_def)
  from liveness_decision
         [of "cleanupScene vanishedProcesses recentLogFiles" ?p 1234 "[?p]" _ 1234 False,
          OF cleanupScene_fields(6) mem]
       pid32 vanished
  have 3: "\<not> isProcessRunning vanishedProcesses 1234"
    by simp
  from liveness_decision
         [of "cleanupScene deniedProcesses recentLogFiles" ?p 1234 "[?p]" ?recent 1234 False
            "''permission denied''" "ProcError ''permission denied''",
          OF cleanupScene_fields(6) mem]
       pid32 denied recent
  have 4: "isProcessRunning deniedProcesses 1234 \<and>
      getProcessStartTime deniedProcesses 1234 = zeroTime \<and>
      keptByCleanup (cleanupScene deniedProcesses recentLogFiles) [?p] ?p"
    by simp
  from liveness_decision
         [of "cleanupScene youngProcess unreadableFiles" ?p 1234 "[?p]" _ _ _ _ _ "''stat failed''",
          OF cleanupScene_fields(6) mem]
       run unreadable
  have 5: "keptByCleanup (cleanupScene youngProcess unreadableFiles) [?p] ?p"
    by simp
  from liveness_decision
         [of "cleanupScene deniedProcesses oldLogFiles" ?p 1234 "[?p]" ?old,
          OF cleanupScene_fields(6) mem]
       4 old
  have 6: "reclaimable (cleanupScene deniedProcesses oldLogFiles) ?p 1234"
    by simp
  from 1 2 3 4 5 6 show ?thesis by blast
qed

text \<open>
  C3 (c) as stated fails. When the existence check fails with \<open>ErrorProcessNotRunning\<close>,
  \<open>isProcessRunning\<close> does not assume the process live, and the file is handed to the
  unlink function. When the check is denied (so the process counts as live) and the start
  time cannot be read, a log file last written eight days ago counts as a reused PID, as
  the row \<^verbatim>\<open>old file unknown start\<close> of \<open>TestLoggerIsPIDReusedScenarios\<close> demands, and is
  handed to the unlink function too.
\<close>

theorem inspection_error_counterexample:
  "PidExists vanishedProcesses 1234 = (False, Some ErrorProcessNotRunning) \<and>
   \<not> isProcessRunning vanishedProcesses 1234 \<and>
   ''/tmp/codeagent-wrapper-1234.log'' \<in>
     set (Unlinked (cleanupOldLogs (cleanupScene vanishedProcesses recentLogFiles)
                      (Inr [''/tmp/codeagent-wrapper-1234.log'']))) \<and>
   isProcessRunning deniedProcesses 1234 \<and>
   getProcessStartTime deniedProcesses 1234 = zeroTime \<and>
   isPIDReused 604800000000000 1700000000000000000 oldLogFiles deniedProcesses ''log'' 1234 \<and>
   ''/tmp/codeagent-wrapper-1234.log'' \<in>
     set (Unlinked (cleanupOldLogs (cleanupScene deniedProcesses oldLogFiles)
                      (Inr [''/tmp/codeagent-wrapper-1234.log''])))"
  by code_simp

subsection \<open>Planning: the layers partition the batch\<close>

lemma layering_Inr_cases:
  assumes "layering placed pending = Inr layers"
  shows "(pending = [] \<and> layers = []) \<or>
         (pending \<noteq> [] \<and> filter (depsIn placed) pending \<noteq> [] \<and>
          (\<exists>ls. layering (placed @ map ID (filter (depsIn placed) pending))
                    (filter (\<lambda>t. \<not> depsIn placed t) pending) = Inr ls \<and>
                layers = filter (depsIn placed) pending # ls))"
  using assms
  by (subst (asm) layering.simps) (auto split: if_splits sum.splits)

lemma layering_Inl_cases:
  assumes "layering placed pending = Inl err"
  shows "pending \<noteq> [] \<and>
         ((filter (depsIn placed) pending = [] \<and> err = CycleDetected (map ID pending)) \<or>
          (filter (depsIn placed) pending \<noteq> [] \<and>
           layering (placed @ map ID (filter (depsIn placed) pending))
             (filter (\<lambda>t. \<not> depsIn placed t) pending) = Inl err))"
  using assms
  by (subst (asm) layering.simps) (auto split: if_splits sum.splits)

lemma layering_partition:
  assumes "layering placed pending = Inr layers" and "distinct pending"
  shows "set (concat layers) = set pending \<and> distinct (concat layers)"
  using assms
proof (induction placed pending arbitrary: layers rule: layering.induct)
  case (1 placed pending)
  from layering_Inr_cases [OF "1.prems"(1)] show ?case
  proof (elim disjE conjE exE)
    assume "pending = []" "layers = []"
    then show ?thesis by simp
  next
    fix ls
    assume ne: "pending \<noteq> []" and ready: "filter (depsIn placed) pending \<noteq> []"
      and rec: "layering (placed @ map ID (filter (depsIn placed) pending))
                  (filter (\<lambda>t. \<not> depsIn placed t) pending) = Inr ls"
      and layers: "layers = filter (depsIn placed) pending # ls"
    have "distinct (filter (\<lambda>t. \<not> depsIn placed t) pending)"
      using "1.prems"(2) by simp
    from "1.IH" [OF ne ready rec this]
    have ih: "set (concat ls) = set (filter (\<lambda>t. \<not> depsIn placed t) pending)"
      "distinct (concat ls)" by simp_all
    show ?thesis
      unfolding layers using ih "1.prems"(2) by auto
  qed
qed

subsection \<open>Planning: every dependency lies in an earlier layer\<close>

lemma layerOf_Cons_other:
  "x \<notin> set (map ID layer) \<Longrightarrow> layerOf (layer # layers) x = map_option Suc (layerOf layers x)"
  by simp

lemma layering_order:
  assumes "layering placed pending = Inr layers" and "distinct (map ID pending)"
    and "t \<in> set pending"
  shows "\<exists>j. layerOf layers (ID t) = Some j \<and>
           (\<forall>u \<in> set (Dependencies t).
              u \<in> set placed \<or> (\<exists>i. layerOf layers u = Some i \<and> i < j))"
  using assms
proof (induction placed pending arbitrary: layers rule: layering.induct)
  case (1 placed pending)
  from "1.prems"(3) have "pending \<noteq> []" by auto
  with layering_Inr_cases [OF "1.prems"(1)] obtain ls where
    ne: "pending \<noteq> []" and ready: "filter (depsIn placed) pending \<noteq> []"
    and rec: "layering (placed @ map ID (filter (depsIn placed) pending))
                (filter (\<lambda>t. \<not> depsIn placed t) pending) = Inr ls"
    and layers: "layers = filter (depsIn placed) pending # ls"
    by blast
  let ?ready = "filter (depsIn placed) pending"
  let ?rest = "filter (\<lambda>t. \<not> depsIn placed t) pending"
  have inj: "inj_on ID (set pending)"
    using "1.prems"(2) by (simp add: distinct_map)
  show ?case
  proof (cases "depsIn placed t")
    case True
    with "1.prems"(3) have "ID t \<in> set (map ID ?ready)" by auto
    then have "layerOf layers (ID t) = Some 0" by (simp add: layers)
    moreover from True have "\<forall>u \<in> set (Dependencies t). u \<in> set placed"
      by (simp add: depsIn_def list_all_iff)
    ultimately show ?thesis by simp
  next
    case False
    with "1.prems"(3) have t_rest: "t \<in> set ?rest" by simp
    have dist: "distinct (map ID ?rest)"
      using "1.prems"(2) by (simp add: distinct_map_filter)
    from "1.IH" [OF ne ready rec dist t_rest] obtain j where
      j: "layerOf ls (ID t) = Some j"
      and deps: "\<forall>u \<in> set (Dependencies t).
                   u \<in> set (placed @ map ID ?ready) \<or> (\<exists>i. layerOf ls u = Some i \<and> i < j)"
      by blast
    have notready: "ID t \<notin> set (map ID ?ready)"
    proof
      assume "ID t \<in> set (map ID ?ready)"
      then obtain r where r: "r \<in> set pending" "depsIn placed r" "ID r = ID t" by auto
      with inj "1.prems"(3) have "r = t" by (auto dest: inj_onD)
      with r False show False by simp
    qed
    have tj: "layerOf layers (ID t) = Some (Suc j)"
      unfolding layers using notready j by simp
    have "\<forall>u \<in> set (Dependencies t).
            u \<in> set placed \<or> (\<exists>i. layerOf layers u = Some i \<and> i < Suc j)"
    proof
      fix u assume "u \<in> set (Dependencies t)"
      with deps have "u \<in> set placed \<or> u \<in> set (map ID ?ready) \<or>
                      (\<exists>i. layerOf ls u = Some i \<and> i < j)" by auto
      then show "u \<in> set placed \<or> (\<exists>i. layerOf layers u = Some i \<and> i < Suc j)"
      proof (elim disjE exE conjE)
        assume "u \<in> set placed" then show ?thesis by simp
      next
        assume "u \<in> set (map ID ?ready)"
        then have "layerOf layers u = Some 0" by (simp add: layers)
        then show ?thesis by simp
      next
        fix i assume i: "layerOf ls u = Some i" "i < j"
        show ?thesis
        proof (cases "u \<in> set (map ID ?ready)")
          case True
          then have "layerOf layers u = Some 0" by (simp add: layers)
          then show ?thesis by simp
        next
          case False
          then have "layerOf layers u = Some (Suc i)" using i by (simp add: layers)
          with i show ?thesis by simp
        qed
      qed
    qed
    with tj show ?thesis by blast
  qed
qed

lemma edges_layer_order:
  assumes "layering [] tasks = Inr layers" and "distinct (map ID tasks)"
    and "(u, v) \<in> edges tasks"
  shows "\<exists>i j. layerOf layers u = Some i \<and> layerOf layers v = Some j \<and> i < j"
proof -
  from assms(3) obtain t where t: "t \<in> set tasks" "v = ID t" "u \<in> set (Dependencies t)"
    by (auto simp: edges_def)
  from layering_order [OF assms(1,2) t(1)] t(2,3) show ?thesis by auto
qed

lemma trancl_layer_order:
  assumes "layering [] tasks = Inr layers" and "distinct (map ID tasks)"
    and "(u, v) \<in> (edges tasks)\<^sup>+"
  shows "\<exists>i j. layerOf layers u = Some i \<and> layerOf layers v = Some j \<and> i < j"
  using assms(3)
proof (induction rule: trancl_induct)
  case (base y)
  then show ?case by (rule edges_layer_order [OF assms(1,2)])
next
  case (step y z)
  from edges_layer_order [OF assms(1,2) step.hyps(2)] step.IH show ?case by fastforce
qed

subsection \<open>Planning: a stuck remaining set holds a cycle\<close>

lemma closed_set_has_cycle:
  assumes "finite R" and "R \<noteq> {}" and "\<forall>v \<in> R. \<exists>u \<in> R. (u, v) \<in> E"
  shows "\<exists>x \<in> R. (x, x) \<in> E\<^sup>+"
proof -
  let ?E = "E \<inter> (R \<times> R)"
  have fin: "finite ?E" using assms(1) by simp
  have "\<not> acyclic ?E"
  proof
    assume "acyclic ?E"
    with fin have "wf ?E" by (rule finite_acyclic_wf)
    then have min: "\<forall>Q x. x \<in> Q \<longrightarrow> (\<exists>z \<in> Q. \<forall>y. (y, z) \<in> ?E \<longrightarrow> y \<notin> Q)"
      by (simp only: wf_eq_minimal)
    from assms(2) obtain x where "x \<in> R" by blast
    with min obtain z where z: "z \<in> R" "\<forall>y. (y, z) \<in> ?E \<longrightarrow> y \<notin> R" by blast
    from assms(3) z(1) obtain u where "u \<in> R" "(u, z) \<in> E" by blast
    with z show False by blast
  qed
  then obtain x where x: "(x, x) \<in> ?E\<^sup>+" by (auto simp: acyclic_def)
  then have "x \<in> Domain (?E\<^sup>+)" by blast
  then have "x \<in> R" by (auto simp: trancl_domain)
  moreover have "?E\<^sup>+ \<subseteq> E\<^sup>+" by (rule trancl_mono_subset) simp
  ultimately show ?thesis using x by blast
qed

lemma edges_mono: "set xs \<subseteq> set ys \<Longrightarrow> edges xs \<subseteq> edges ys"
  by (auto simp: edges_def)

lemma layering_stuck_cycle:
  assumes "layering placed pending = Inl err"
    and "\<forall>t \<in> set pending. \<forall>u \<in> set (Dependencies t). u \<in> set placed \<or> u \<in> ID ` set pending"
  shows "\<exists>ids. err = CycleDetected ids \<and> (\<exists>x \<in> set ids. (x, x) \<in> (edges pending)\<^sup>+)"
  using assms
proof (induction placed pending rule: layering.induct)
  case (1 placed pending)
  let ?ready = "filter (depsIn placed) pending"
  let ?rest = "filter (\<lambda>t. \<not> depsIn placed t) pending"
  from layering_Inl_cases [OF "1.prems"(1)] have ne: "pending \<noteq> []" by simp
  show ?case
  proof (cases "?ready = []")
    case True
    with layering_Inl_cases [OF "1.prems"(1)] have err: "err = CycleDetected (map ID pending)"
      by simp
    let ?R = "ID ` set pending"
    have "\<forall>v \<in> ?R. \<exists>u \<in> ?R. (u, v) \<in> edges pending"
    proof
      fix v assume "v \<in> ?R"
      then obtain t where t: "t \<in> set pending" "v = ID t" by blast
      with True have "\<not> depsIn placed t" by (auto simp: filter_empty_conv)
      then obtain u where u: "u \<in> set (Dependencies t)" "u \<notin> set placed"
        by (auto simp: depsIn_def list_all_iff)
      with "1.prems"(2) t(1) have "u \<in> ?R" by blast
      moreover from t u(1) have "(u, v) \<in> edges pending" by (auto simp: edges_def)
      ultimately show "\<exists>u \<in> ?R. (u, v) \<in> edges pending" by blast
    qed
    moreover have "finite ?R" by simp
    moreover from ne have "?R \<noteq> {}" by simp
    ultimately have "\<exists>x \<in> ?R. (x, x) \<in> (edges pending)\<^sup>+"
      by (intro closed_set_has_cycle)
    with err show ?thesis by auto
  next
    case False
    with layering_Inl_cases [OF "1.prems"(1)] have
      rec: "layering (placed @ map ID ?ready) ?rest = Inl err" by simp
    have inv: "\<forall>t \<in> set ?rest. \<forall>u \<in> set (Dependencies t).
                 u \<in> set (placed @ map ID ?ready) \<or> u \<in> ID ` set ?rest"
    proof (intro ballI)
      fix t u assume "t \<in> set ?rest" "u \<in> set (Dependencies t)"
      with "1.prems"(2) have "u \<in> set placed \<or> u \<in> ID ` set pending" by auto
      then show "u \<in> set (placed @ map ID ?ready) \<or> u \<in> ID ` set ?rest" by auto
    qed
    from "1.IH" [OF ne False rec inv] obtain ids x where
      "err = CycleDetected ids" "x \<in> set ids" "(x, x) \<in> (edges ?rest)\<^sup>+" by blast
    moreover have "(edges ?rest)\<^sup>+ \<subseteq> (edges pending)\<^sup>+"
      by (rule trancl_mono_subset) (rule edges_mono, simp)
    ultimately show ?thesis by blast
  qed
qed

lemma declared_edges:
  "set (concat (map (\<lambda>t. map (\<lambda>d. (d, ID t)) (Dependencies t)) tasks)) = edges tasks"
  by (auto simp: edges_def)

lemma edgeI: "t \<in> set tasks \<Longrightarrow> u \<in> set (Dependencies t) \<Longrightarrow> (u, ID t) \<in> edges tasks"
  by (auto simp: edges_def)

lemma firstUnknown_None:
  "firstUnknown tasks = None \<longleftrightarrow> (\<forall>(u, v) \<in> edges tasks. u \<in> set (map ID tasks))"
  unfolding firstUnknown_def find_None_iff declared_edges by auto

lemma firstUnknown_Some:
  assumes "firstUnknown tasks = Some (u, v)"
  shows "(u, v) \<in> edges tasks \<and> u \<notin> set (map ID tasks)"
proof -
  let ?xs = "concat (map (\<lambda>t. map (\<lambda>d. (d, ID t)) (Dependencies t)) tasks)"
  from assms obtain i where i: "i < length ?xs" and x: "?xs ! i = (u, v)"
    and unknown: "u \<notin> set (map ID tasks)"
    unfolding firstUnknown_def find_Some_iff by auto
  from nth_mem [OF i] x have "(u, v) \<in> set ?xs" by simp
  then have "(u, v) \<in> edges tasks" by (simp only: declared_edges)
  with unknown show ?thesis by simp
qed

subsection \<open>Planning: the batches the parser accepts have unique IDs\<close>

lemma parseTaskBlock_fresh_id:
  assumes "parseTaskBlock defaultWorkdir ResolveAgentConfig taskIndex seen taskBlock = Inr task"
  shows "ID task \<notin> seen"
proof -
  from assms obtain part0 part1 where
    parts: "SplitN2 taskBlock ''---CONTENT---'' = [part0, part1]"
    by (auto simp: parseTaskBlock_def SplitN2_def split: option.splits)
  from assms parts obtain task0 agentSpecified where
    meta: "parseMeta taskIndex (Split (TrimSpace part0) [CHR 0x0A]) (emptyTask defaultWorkdir, False) =
             Inr (task0, agentSpecified)"
    by (auto simp: parseTaskBlock_def Let_def split: sum.splits)
  from assms parts meta show ?thesis
    unfolding parseTaskBlock_def Let_def
    by (cases agentSpecified) (auto split: if_splits option.splits)
qed

lemma parseBlocks_distinct:
  assumes "parseBlocks defaultWorkdir ResolveAgentConfig taskIndex seen acc blocks = Inr tasks"
    and "distinct (map ID acc)" and "set (map ID acc) \<subseteq> seen"
  shows "distinct (map ID tasks)"
  using assms
proof (induction blocks arbitrary: taskIndex seen acc)
  case Nil
  then show ?case by simp
next
  case (Cons block0 blocks)
  show ?case
  proof (cases "TrimSpace block0 = ''''")
    case True
    with Cons.prems(1) have
      "parseBlocks defaultWorkdir ResolveAgentConfig taskIndex seen acc blocks = Inr tasks"
      by simp
    from Cons.IH [OF this Cons.prems(2,3)] show ?thesis .
  next
    case False
    with Cons.prems(1) obtain task where
      blk: "parseTaskBlock defaultWorkdir ResolveAgentConfig (taskIndex + 1) seen (TrimSpace block0) =
              Inr task"
      and rest: "parseBlocks defaultWorkdir ResolveAgentConfig (taskIndex + 1)
                   (insert (ID task) seen) (acc @ [task]) blocks = Inr tasks"
      by (auto simp: Let_def split: sum.splits)
    from parseTaskBlock_fresh_id [OF blk] have fresh: "ID task \<notin> seen" .
    with Cons.prems(2,3) have d: "distinct (map ID (acc @ [task]))" by auto
    from Cons.prems(3) have s: "set (map ID (acc @ [task])) \<subseteq> insert (ID task) seen" by auto
    from Cons.IH [OF rest d s] show ?thesis .
  qed
qed

lemma ParseParallelConfig_distinct_ids:
  assumes "ParseParallelConfig defaultWorkdir ResolveAgentConfig data = Inr cfg"
  shows "distinct (map ID (Tasks cfg))"
proof -
  from assms obtain tasks where
    blocks: "parseBlocks defaultWorkdir ResolveAgentConfig 0 {} []
               (Split (TrimSpace data) ''---TASK---'') = Inr tasks"
    and cfg: "cfg = \<lparr>Tasks = tasks, GlobalBackend = ''''\<rparr>"
    by (auto simp: ParseParallelConfig_def Let_def split: if_splits sum.splits)
  from parseBlocks_distinct [OF blocks] cfg show ?thesis by simp
qed

text \<open>
  C1 (amended). For a batch with unique IDs (every batch the parser accepts has them):
  when planning accepts it, the layers hold every task exactly once, and every
  dependency's layer comes strictly before the layer of the task that declares it; when
  every dependency is the ID of a task of the batch and the dependency graph has a cycle,
  planning fails with a cycle error that names an ID lying on a cycle; when some
  dependency is not the ID of any task, planning fails with the unknown-dependency error
  for such a dependency and the task that declares it, whether the graph has a cycle or
  not.
\<close>

theorem TopologicalSort_layers:
  assumes "distinct (map ID tasks)"
  shows "(\<forall>layers. TopologicalSort tasks = Inr layers \<longrightarrow>
            set (concat layers) = set tasks \<and> distinct (concat layers) \<and>
            (\<forall>(u, v) \<in> edges tasks.
               \<exists>i j. layerOf layers u = Some i \<and> layerOf layers v = Some j \<and> i < j)) \<and>
         ((\<forall>(u, v) \<in> edges tasks. u \<in> set (map ID tasks)) \<and> (\<exists>x. (x, x) \<in> (edges tasks)\<^sup>+) \<longrightarrow>
            (\<exists>ids. TopologicalSort tasks = Inl (CycleDetected ids) \<and>
                   (\<exists>x \<in> set ids. (x, x) \<in> (edges tasks)\<^sup>+))) \<and>
         ((\<exists>(u, v) \<in> edges tasks. u \<notin> set (map ID tasks)) \<longrightarrow>
            (\<exists>u v. TopologicalSort tasks = Inl (UnknownDependency u v) \<and>
                   (u, v) \<in> edges tasks \<and> u \<notin> set (map ID tasks)))"
proof (intro conjI allI impI)
  fix layers assume ok: "TopologicalSort tasks = Inr layers"
  then have lay: "layering [] tasks = Inr layers"
    by (auto simp: TopologicalSort_def split: option.splits)
  from assms have dist: "distinct tasks" by (simp add: distinct_map)
  from layering_partition [OF lay dist]
  show "set (concat layers) = set tasks" and "distinct (concat layers)" by simp_all
  show "\<forall>(u, v) \<in> edges tasks.
          \<exists>i j. layerOf layers u = Some i \<and> layerOf layers v = Some j \<and> i < j"
    using edges_layer_order [OF lay assms] by blast
next
  assume h: "(\<forall>(u, v) \<in> edges tasks. u \<in> set (map ID tasks)) \<and> (\<exists>x. (x, x) \<in> (edges tasks)\<^sup>+)"
  then have known: "firstUnknown tasks = None" by (simp add: firstUnknown_None)
  then have ts: "TopologicalSort tasks = layering [] tasks" by (simp add: TopologicalSort_def)
  from h obtain x where cyc: "(x, x) \<in> (edges tasks)\<^sup>+" by blast
  show "\<exists>ids. TopologicalSort tasks = Inl (CycleDetected ids) \<and>
              (\<exists>x \<in> set ids. (x, x) \<in> (edges tasks)\<^sup>+)"
  proof (cases "layering [] tasks")
    case (Inr layers)
    from trancl_layer_order [OF Inr assms cyc] show ?thesis by auto
  next
    case (Inl err)
    have "\<forall>t \<in> set tasks. \<forall>u \<in> set (Dependencies t). u \<in> set [] \<or> u \<in> ID ` set tasks"
      using h by (auto simp: edges_def)
    from layering_stuck_cycle [OF Inl this] ts Inl show ?thesis by auto
  qed
next
  assume "\<exists>(u, v) \<in> edges tasks. u \<notin> set (map ID tasks)"
  then have "firstUnknown tasks \<noteq> None" by (auto simp: firstUnknown_None)
  then obtain u v where fu: "firstUnknown tasks = Some (u, v)" by auto
  from firstUnknown_Some [OF fu] fu
  show "\<exists>u v. TopologicalSort tasks = Inl (UnknownDependency u v) \<and>
              (u, v) \<in> edges tasks \<and> u \<notin> set (map ID tasks)"
    by (auto simp: TopologicalSort_def)
qed

lemma mixedBatch_edges:
  "edges mixedBatch = {(''b'', ''a''), (''a'', ''b''), (''zzz'', ''c'')}"
  unfolding declared_edges [symmetric] by (auto simp: mixedBatch_def plainTask_def)

theorem TopologicalSort_layers_witness:
  "TopologicalSort fanOutFanIn =
     Inr [[plainTask ''a'' []], [plainTask ''b'' [''a''], plainTask ''c'' [''a'']],
          [plainTask ''d'' [''b'', ''c'']]] \<and>
   (\<exists>i j. layerOf [[plainTask ''a'' []], [plainTask ''b'' [''a''], plainTask ''c'' [''a'']],
                    [plainTask ''d'' [''b'', ''c'']]] ''c'' = Some i \<and>
          layerOf [[plainTask ''a'' []], [plainTask ''b'' [''a''], plainTask ''c'' [''a'']],
                    [plainTask ''d'' [''b'', ''c'']]] ''d'' = Some j \<and> i < j) \<and>
   (\<exists>ids. TopologicalSort twoCycle = Inl (CycleDetected ids) \<and>
          (\<exists>x \<in> set ids. (x, x) \<in> (edges twoCycle)\<^sup>+)) \<and>
   (\<exists>u v. TopologicalSort mixedBatch = Inl (UnknownDependency u v) \<and>
          (u, v) \<in> edges mixedBatch \<and> u \<notin> set (map ID mixedBatch))"
proof -
  let ?layers = "[[plainTask ''a'' []], [plainTask ''b'' [''a''], plainTask ''c'' [''a'']],
                  [plainTask ''d'' [''b'', ''c'']]]"
  have d1: "distinct (map ID fanOutFanIn)"
    by (simp add: fanOutFanIn_def plainTask_def)
  have d2: "distinct (map ID twoCycle)"
    by (simp add: twoCycle_def plainTask_def)
  have d3: "distinct (map ID mixedBatch)"
    by (simp add: mixedBatch_def plainTask_def)
  have ok: "TopologicalSort fanOutFanIn = Inr ?layers"
    by code_simp
  have e1: "(''c'', ''d'') \<in> edges fanOutFanIn"
    using edgeI [of "plainTask ''d'' [''b'', ''c'']" fanOutFanIn "''c''"]
    by (simp add: fanOutFanIn_def plainTask_def)
  from TopologicalSort_layers [OF d1] ok e1
  have order: "\<exists>i j. layerOf ?layers ''c'' = Some i \<and> layerOf ?layers ''d'' = Some j \<and> i < j"
    by blast
  have known: "\<forall>(u, v) \<in> edges twoCycle. u \<in> set (map ID twoCycle)"
    unfolding declared_edges [symmetric] by (simp add: twoCycle_def plainTask_def)
  have ab: "(''a'', ''b'') \<in> edges twoCycle"
    using edgeI [of "plainTask ''b'' [''a'']" twoCycle "''a''"]
    by (simp add: twoCycle_def plainTask_def)
  have ba: "(''b'', ''a'') \<in> edges twoCycle"
    using edgeI [of "plainTask ''a'' [''b'']" twoCycle "''b''"]
    by (simp add: twoCycle_def plainTask_def)
  from ab ba have "(''a'', ''a'') \<in> (edges twoCycle)\<^sup>+" by (rule trancl_into_trancl [OF r_into_trancl])
  then have "\<exists>x. (x, x) \<in> (edges twoCycle)\<^sup>+" by blast
  with TopologicalSort_layers [OF d2] known
  have cyc: "\<exists>ids. TopologicalSort twoCycle = Inl (CycleDetected ids) \<and>
          (\<exists>x \<in> set ids. (x, x) \<in> (edges twoCycle)\<^sup>+)"
    by blast
  have "\<exists>(u, v) \<in> edges mixedBatch. u \<notin> set (map ID mixedBatch)"
    unfolding mixedBatch_edges by (simp add: mixedBatch_def plainTask_def)
  with TopologicalSort_layers [OF d3]
  have unknown: "\<exists>u v. TopologicalSort mixedBatch = Inl (UnknownDependency u v) \<and>
          (u, v) \<in> edges mixedBatch \<and> u \<notin> set (map ID mixedBatch)"
    by blast
  from ok order cyc unknown show ?thesis by blast
qed

text \<open>
  C1 as stated fails. The parser accepts a document whose tasks \<open>a\<close> and \<open>b\<close> depend on
  each other and whose task \<open>c\<close> depends on \<open>zzz\<close>, the ID of no task. The dependency
  graph has the cycle through \<open>a\<close> and \<open>b\<close>, but planning fails with the
  unknown-dependency error for \<open>zzz\<close> and \<open>c\<close>, neither of which lies on a cycle.
\<close>

theorem cycle_error_counterexample:
  "ParseParallelConfig ''.'' examplePresets mixedDocument =
     Inr \<lparr>Tasks = mixedBatch, GlobalBackend = ''''\<rparr> \<and>
   TopologicalSort mixedBatch = Inl (UnknownDependency ''zzz'' ''c'') \<and>
   (''a'', ''a'') \<in> (edges mixedBatch)\<^sup>+ \<and>
   (''zzz'', ''zzz'') \<notin> (edges mixedBatch)\<^sup>+ \<and>
   (''c'', ''c'') \<notin> (edges mixedBatch)\<^sup>+"
proof (intro conjI)
  show "ParseParallelConfig ''.'' examplePresets mixedDocument =
     Inr \<lparr>Tasks = mixedBatch, GlobalBackend = ''''\<rparr>"
    by code_simp
  show "TopologicalSort mixedBatch = Inl (UnknownDependency ''zzz'' ''c'')"
    by code_simp
  have "(''a'', ''b'') \<in> edges mixedBatch" and "(''b'', ''a'') \<in> edges mixedBatch"
    by (simp_all add: mixedBatch_edges)
  then show "(''a'', ''a'') \<in> (edges mixedBatch)\<^sup>+"
    by (rule trancl_into_trancl [OF r_into_trancl])
  show "(''zzz'', ''zzz'') \<notin> (edges mixedBatch)\<^sup>+"
  proof
    assume "(''zzz'', ''zzz'') \<in> (edges mixedBatch)\<^sup>+"
    from tranclD2 [OF this] obtain y where "(y, ''zzz'') \<in> edges mixedBatch" by blast
    then show False by (simp add: mixedBatch_edges)
  qed
  show "(''c'', ''c'') \<notin> (edges mixedBatch)\<^sup>+"
  proof
    assume "(''c'', ''c'') \<in> (edges mixedBatch)\<^sup>+"
    from tranclD [OF this] obtain y where "(''c'', y) \<in> edges mixedBatch" by blast
    then show False by (simp add: mixedBatch_edges)
  qed
qed

end
